theory Spec2Isabelle
  imports Main "HOL-Library.AList"
begin

section \<open>Python strings and the built-ins the script calls\<close>

text \<open>
  A Python \<open>str\<close> is a sequence of Unicode code points, so a string is a list of
  naturals here (the curly quotes of \<open>extract_title\<close> are the single code points
  8220 and 8221). \<open>asc\<close> turns an ASCII literal into such a list.

  The Unicode character database is not part of the repository. What the script
  reads from it for code points from 128 on is a parameter \<open>U\<close> of the model:
  the decimal digits and their values (\<open>\d\<close> of \<open>re\<close>, \<open>int\<close>), the alphanumerics
  (\<open>\w\<close> and \<open>\b\<close> of \<open>re\<close>) and \<open>str.lower\<close> on a string that is not pure ASCII.
  On ASCII the classes are written out, and the whitespace characters of \<open>str.strip\<close>
  and \<open>\s\<close> are written out in full.
\<close>

type_synonym pystr = "nat list"

definition asc :: "string \<Rightarrow> pystr" where
  "asc s = map of_char s"

record ucd =
  u_digit :: "nat \<Rightarrow> nat option"
  u_alnum :: "nat \<Rightarrow> bool"
  u_lower :: "pystr \<Rightarrow> pystr"

datatype error =
    InvalidLiteral      \<comment> \<open>ValueError: invalid literal for int() with base 10\<close>
  | NoSelection         \<comment> \<open>ValueError: Selection matched no references in the RTF.\<close>
  | ChrRange            \<comment> \<open>ValueError: chr() arg not in range(0x110000)\<close>
  | ChrOverflow         \<comment> \<open>OverflowError: Python int too large to convert to C int\<close>
  | KeyError
  | NoReferences        \<comment> \<open>SystemExit: No numbered references like [1] ... found in the RTF.\<close>

definition is_space :: "nat \<Rightarrow> bool" where
  "is_space c = (c \<in> set [9, 10, 11, 12, 13, 28, 29, 30, 31, 32, 133, 160, 5760,
                           8232, 8233, 8239, 8287, 12288] \<or> (8192 \<le> c \<and> c \<le> 8202))"

definition digit_val :: "ucd \<Rightarrow> nat \<Rightarrow> nat option" where
  "digit_val U c =
     (if 48 \<le> c \<and> c \<le> 57 then Some (c - 48)
      else if 128 \<le> c \<and> \<not> is_space c then u_digit U c
      else None)"

definition is_digit :: "ucd \<Rightarrow> nat \<Rightarrow> bool" where
  "is_digit U c = (digit_val U c \<noteq> None)"

definition is_ascii_letter :: "nat \<Rightarrow> bool" where
  "is_ascii_letter c = ((65 \<le> c \<and> c \<le> 90) \<or> (97 \<le> c \<and> c \<le> 122))"

definition is_word :: "ucd \<Rightarrow> nat \<Rightarrow> bool" where
  "is_word U c =
     (c = 95 \<or> is_ascii_letter c \<or> is_digit U c \<or> (128 \<le> c \<and> u_alnum U c))"

definition py_strip :: "pystr \<Rightarrow> pystr" where
  "py_strip s = rev (dropWhile is_space (rev (dropWhile is_space s)))"

definition py_lower :: "ucd \<Rightarrow> pystr \<Rightarrow> pystr" where
  "py_lower U s =
     (if list_all (\<lambda>c. c < 128) s
      then map (\<lambda>c. if 65 \<le> c \<and> c \<le> 90 then c + 32 else c) s
      else u_lower U s)"

definition startswith :: "pystr \<Rightarrow> pystr \<Rightarrow> bool" where
  "startswith s p = (take (length p) s = p)"

text \<open>\<open>s.split(sep)\<close> for a separator of one character: the pieces between its occurrences.\<close>

fun split_char :: "nat \<Rightarrow> pystr \<Rightarrow> pystr list" where
  "split_char d [] = [[]]"
| "split_char d (c # r) =
     (if c = d then [] # split_char d r
      else (case split_char d r of [] \<Rightarrow> [[c]] | p # ps \<Rightarrow> (c # p) # ps))"

text \<open>\<open>s.split(sep)[0]\<close>: the text before the first occurrence of \<open>sep\<close>, all of it when there is none.\<close>

fun before_first :: "pystr \<Rightarrow> pystr \<Rightarrow> pystr" where
  "before_first sep [] = []"
| "before_first sep (c # r) =
     (if startswith (c # r) sep then [] else c # before_first sep r)"

text \<open>
  \<open>int(s)\<close> in base 10. CPython first maps, in a string that is not pure ASCII, every
  whitespace code point from 128 on to a blank and every decimal digit to its ASCII
  digit; it then skips blanks (9 to 13 and 32; the separators 28 to 31 are not
  blanks for \<open>int\<close>), reads an optional sign, then digits with single underscores
  allowed between two digits, skips blanks again and must be at the end. The interpreter's
  optional cap on the number of digits of a literal is a run-time setting and is taken
  as switched off.
\<close>

definition int_space :: "nat \<Rightarrow> bool" where
  "int_space c = (c \<in> set [9, 10, 11, 12, 13, 32] \<or> (128 \<le> c \<and> is_space c))"

fun int_body :: "ucd \<Rightarrow> nat \<Rightarrow> pystr \<Rightarrow> nat option" where
  "int_body U acc [] = Some acc"
| "int_body U acc [c] = map_option (\<lambda>v. 10 * acc + v) (digit_val U c)"
| "int_body U acc (c # d # r) =
     (if c = 95
      then (case digit_val U d of None \<Rightarrow> None | Some v \<Rightarrow> int_body U (10 * acc + v) r)
      else (case digit_val U c of None \<Rightarrow> None | Some v \<Rightarrow> int_body U (10 * acc + v) (d # r)))"

definition int_unsigned :: "ucd \<Rightarrow> pystr \<Rightarrow> nat option" where
  "int_unsigned U s =
     (case rev (dropWhile int_space (rev s)) of
        [] \<Rightarrow> None
      | c # r \<Rightarrow> (case digit_val U c of None \<Rightarrow> None | Some v \<Rightarrow> int_body U v r))"

definition py_int :: "ucd \<Rightarrow> pystr \<Rightarrow> error + int" where
  "py_int U s =
     (case dropWhile int_space s of
        [] \<Rightarrow> Inl InvalidLiteral
      | c # r \<Rightarrow>
          if c = 45 then (case int_unsigned U r of None \<Rightarrow> Inl InvalidLiteral
                                                 | Some n \<Rightarrow> Inr (- int n))
          else if c = 43 then (case int_unsigned U r of None \<Rightarrow> Inl InvalidLiteral
                                                     | Some n \<Rightarrow> Inr (int n))
          else (case int_unsigned U (c # r) of None \<Rightarrow> Inl InvalidLiteral
                                              | Some n \<Rightarrow> Inr (int n)))"

text \<open>\<open>chr(i)\<close>: the code point \<open>i\<close>, an error outside \<open>range(0x110000)\<close>.\<close>

definition py_chr :: "int \<Rightarrow> error + nat" where
  "py_chr i =
     (if i < - 2147483648 \<or> 2147483647 < i then Inl ChrOverflow
      else if i < 0 \<or> 1114112 \<le> i then Inl ChrRange
      else Inr (nat i))"

text \<open>\<open>str(n)\<close> of an integer, as the f-string of the placeholder node id formats it.\<close>

fun str_nat :: "nat \<Rightarrow> pystr" where
  "str_nat n = (if n < 10 then [48 + n] else str_nat (n div 10) @ [48 + n mod 10])"

declare str_nat.simps [simp del]

definition str_int :: "int \<Rightarrow> pystr" where
  "str_int i = (if i < 0 then 45 # str_nat (nat (- i)) else str_nat (nat i))"

text \<open>A loop that stops at the first exception: the results so far are lost, the error is returned.\<close>

fun map_err :: "('a \<Rightarrow> error + 'b) \<Rightarrow> 'a list \<Rightarrow> error + 'b list" where
  "map_err f [] = Inr []"
| "map_err f (x # xs) =
     (case f x of
        Inl e \<Rightarrow> Inl e
      | Inr y \<Rightarrow> (case map_err f xs of Inl e \<Rightarrow> Inl e | Inr ys \<Rightarrow> Inr (y # ys)))"

text \<open>\<open>d[k]\<close> on a dict, kept as an association list in insertion order.\<close>

definition lookup :: "('k \<times> 'v) list \<Rightarrow> 'k \<Rightarrow> error + 'v" where
  "lookup d k = (case map_of d k of None \<Rightarrow> Inl KeyError | Some v \<Rightarrow> Inr v)"

section \<open>The markup text extractor\<close>

text \<open>
  \<^verbatim>\<open>
  def rtf_to_text(rtf: str) -> str:
      def uni_repl(m):
          code = int(m.group(1))
          if code < 0:
              code = 65536 + code
          return chr(code)
      s = re.sub(r"\\u(-?\d+)\??", uni_repl, rtf)
      s = re.sub(r"\\'[0-9a-fA-F]{2}", "", s)
      s = re.sub(r"\\[a-zA-Z]+\d* ?", "", s)
      s = s.replace("{", "").replace("}", "")
      s = re.sub(r"[ \t]+", " ", s)
      s = re.sub(r"\n\s+", "\n", s)
      return s.strip()
  \<close>
  Each \<open>re.sub\<close> is a scan from the left: where the pattern matches at the position, the
  match is replaced and the scan goes on after it; elsewhere the character is copied.
  No pattern of the function matches the empty string. \<open>uni_at\<close> is the pattern of the
  first substitution at a position: a backslash (92), \<open>u\<close> (117), an optional minus
  (45), as many digits as there are and at least one, an optional question mark (63).
  It gives group 1 and the text after the match. \<open>skip_opt q\<close> is the optional
  character \<open>q\<close> of a pattern, taken when it is there.
\<close>

definition skip_opt :: "nat \<Rightarrow> pystr \<Rightarrow> pystr" where
  "skip_opt q s = (case s of [] \<Rightarrow> [] | c # r \<Rightarrow> if c = q then r else s)"

definition uni_at :: "ucd \<Rightarrow> pystr \<Rightarrow> (pystr \<times> pystr) option" where
  "uni_at U s =
     (case s of
        a # b # r \<Rightarrow>
          if a = 92 \<and> b = 117 \<and> takeWhile (is_digit U) (skip_opt 45 r) \<noteq> [] then
            Some ((if take 1 r = [45] then [45] else []) @ takeWhile (is_digit U) (skip_opt 45 r),
                  skip_opt 63 (dropWhile (is_digit U) (skip_opt 45 r)))
          else None
      | _ \<Rightarrow> None)"

definition uni_repl :: "ucd \<Rightarrow> pystr \<Rightarrow> error + nat" where
  "uni_repl U g =
     (case py_int U g of
        Inl e \<Rightarrow> Inl e
      | Inr code \<Rightarrow> py_chr (if code < 0 then 65536 + code else code))"

lemma skip_opt_le: "length (skip_opt q s) \<le> length s"
  by (cases s) (auto simp: skip_opt_def)

lemma uni_at_shorter: "uni_at U s = Some (g, rest) \<Longrightarrow> length rest < length s"
proof -
  assume h: "uni_at U s = Some (g, rest)"
  then obtain a b r where s: "s = a # b # r"
    by (cases s; cases "tl s") (auto simp: uni_at_def)
  from h s have "rest = skip_opt 63 (dropWhile (is_digit U) (skip_opt 45 r))"
    by (auto simp: uni_at_def split: if_splits)
  moreover have "length (skip_opt 63 (dropWhile (is_digit U) (skip_opt 45 r)))
      \<le> length (dropWhile (is_digit U) (skip_opt 45 r))"
    by (rule skip_opt_le)
  moreover have "length (dropWhile (is_digit U) (skip_opt 45 r)) \<le> length (skip_opt 45 r)"
    by (rule length_dropWhile_le)
  moreover have "length (skip_opt 45 r) \<le> length r"
    by (rule skip_opt_le)
  ultimately show ?thesis using s by simp
qed

function sub_uni :: "ucd \<Rightarrow> pystr \<Rightarrow> error + pystr" where
  "sub_uni U s =
     (case uni_at U s of
        Some (g, rest) \<Rightarrow>
          (case uni_repl U g of
             Inl e \<Rightarrow> Inl e
           | Inr ch \<Rightarrow> (case sub_uni U rest of Inl e \<Rightarrow> Inl e | Inr t \<Rightarrow> Inr (ch # t)))
      | None \<Rightarrow>
          (case s of
             [] \<Rightarrow> Inr []
           | c # r \<Rightarrow> (case sub_uni U r of Inl e \<Rightarrow> Inl e | Inr t \<Rightarrow> Inr (c # t))))"
  by pat_completeness auto
termination
  by (relation "measure (\<lambda>(U, s). length s)") (auto dest: uni_at_shorter)

declare sub_uni.simps [simp del]

definition is_hex :: "nat \<Rightarrow> bool" where
  "is_hex c = ((48 \<le> c \<and> c \<le> 57) \<or> (97 \<le> c \<and> c \<le> 102) \<or> (65 \<le> c \<and> c \<le> 70))"

text \<open>The hex escapes: a backslash, an apostrophe (39) and two hex digits, removed.\<close>

fun sub_hex :: "pystr \<Rightarrow> pystr" where
  "sub_hex (a # b # c # d # r) =
     (if a = 92 \<and> b = 39 \<and> is_hex c \<and> is_hex d then sub_hex r
      else a # sub_hex (b # c # d # r))"
| "sub_hex s = s"

text \<open>
  The control words: a backslash, ASCII letters (at least one), digits, an optional
  blank, removed. \<open>ctrl_at\<close> gives the text after the match.
\<close>

definition ctrl_at :: "ucd \<Rightarrow> pystr \<Rightarrow> pystr option" where
  "ctrl_at U s =
     (case s of
        [] \<Rightarrow> None
      | a # r \<Rightarrow>
          if a = 92 \<and> takeWhile is_ascii_letter r \<noteq> [] then
            Some (skip_opt 32 (dropWhile (is_digit U) (dropWhile is_ascii_letter r)))
          else None)"

lemma ctrl_at_shorter: "ctrl_at U s = Some rest \<Longrightarrow> length rest < length s"
proof -
  assume h: "ctrl_at U s = Some rest"
  then obtain a r where s: "s = a # r"
    by (cases s) (auto simp: ctrl_at_def)
  from h s have "rest = skip_opt 32 (dropWhile (is_digit U) (dropWhile is_ascii_letter r))"
    by (auto simp: ctrl_at_def split: if_splits)
  moreover have "length (skip_opt 32 (dropWhile (is_digit U) (dropWhile is_ascii_letter r)))
      \<le> length (dropWhile (is_digit U) (dropWhile is_ascii_letter r))"
    by (rule skip_opt_le)
  moreover have "length (dropWhile (is_digit U) (dropWhile is_ascii_letter r))
      \<le> length (dropWhile is_ascii_letter r)"
    by (rule length_dropWhile_le)
  moreover have "length (dropWhile is_ascii_letter r) \<le> length r"
    by (rule length_dropWhile_le)
  ultimately show ?thesis using s by simp
qed

function sub_ctrl :: "ucd \<Rightarrow> pystr \<Rightarrow> pystr" where
  "sub_ctrl U s =
     (case ctrl_at U s of
        Some rest \<Rightarrow> sub_ctrl U rest
      | None \<Rightarrow> (case s of [] \<Rightarrow> [] | c # r \<Rightarrow> c # sub_ctrl U r))"
  by pat_completeness auto
termination
  by (relation "measure (\<lambda>(U, s). length s)") (auto dest: ctrl_at_shorter)

declare sub_ctrl.simps [simp del]

definition remove_braces :: "pystr \<Rightarrow> pystr" where
  "remove_braces s = filter (\<lambda>c. c \<noteq> 125) (filter (\<lambda>c. c \<noteq> 123) s)"

definition is_blank :: "nat \<Rightarrow> bool" where
  "is_blank c = (c = 32 \<or> c = 9)"

text \<open>A run of blanks and tabs becomes one blank.\<close>

function sub_blanks :: "pystr \<Rightarrow> pystr" where
  "sub_blanks [] = []"
| "sub_blanks (c # r) =
     (if is_blank c then 32 # sub_blanks (dropWhile is_blank r) else c # sub_blanks r)"
  by pat_completeness auto
termination
  by (relation "measure length") (auto simp: less_Suc_eq_le length_dropWhile_le)

text \<open>A newline (10) and the whitespace after it, at least one character, become one newline.\<close>

function sub_newlines :: "pystr \<Rightarrow> pystr" where
  "sub_newlines [] = []"
| "sub_newlines (c # r) =
     (if c = 10 \<and> takeWhile is_space r \<noteq> [] then 10 # sub_newlines (dropWhile is_space r)
      else c # sub_newlines r)"
  by pat_completeness auto
termination
  by (relation "measure length") (auto simp: less_Suc_eq_le length_dropWhile_le)

definition rtf_to_text :: "ucd \<Rightarrow> pystr \<Rightarrow> error + pystr" where
  "rtf_to_text U rtf =
     (case sub_uni U rtf of
        Inl e \<Rightarrow> Inl e
      | Inr s \<Rightarrow>
          Inr (py_strip (sub_newlines (sub_blanks (remove_braces (sub_ctrl U (sub_hex s)))))))"

section \<open>The reference segmenter\<close>

text \<open>
  \<^verbatim>\<open>
  def split_numbered_refs(text: str) -> List[Tuple[int, str]]:
      pattern = re.compile(r"\[(\d+)\](.*?)(?=\n\\\n\[\d+\]|\n\[\d+\]|$)", re.S)
      out = []
      for m in pattern.finditer(text):
          out.append((int(m.group(1)), m.group(2).strip()))
      return out
  \<close>
  \<open>bracket_at\<close> is \<open>\[(\d+)\]\<close> at a position: an opening bracket (91), the digits
  that follow, at least one, and a closing bracket (93); it gives the digits and the
  text after the bracket. \<open>lookahead\<close> is the group \<open>(?=...)\<close>: a newline, a backslash,
  a newline and a bracketed number; or a newline and a bracketed number; or \<open>$\<close>, the
  end of the text or the newline that ends it. \<open>lazy_body\<close> is \<open>(.*?)\<close> under
  \<open>re.S\<close>: the shortest text after which the lookahead holds; it gives group 2 and the
  position where the match ends. \<open>finditer_refs\<close> is \<open>finditer\<close>: the leftmost match
  from the position, then the scan goes on where that match ended.
\<close>

definition bracket_at :: "ucd \<Rightarrow> pystr \<Rightarrow> (pystr \<times> pystr) option" where
  "bracket_at U s =
     (case s of
        [] \<Rightarrow> None
      | a # r \<Rightarrow>
          if a = 91 \<and> takeWhile (is_digit U) r \<noteq> [] \<and> take 1 (dropWhile (is_digit U) r) = [93]
          then Some (takeWhile (is_digit U) r, drop 1 (dropWhile (is_digit U) r))
          else None)"

definition lookahead :: "ucd \<Rightarrow> pystr \<Rightarrow> bool" where
  "lookahead U s =
     ((startswith s [10, 92, 10] \<and> bracket_at U (drop 3 s) \<noteq> None)
      \<or> (startswith s [10] \<and> bracket_at U (drop 1 s) \<noteq> None)
      \<or> s = [] \<or> s = [10])"

fun lazy_body :: "ucd \<Rightarrow> pystr \<Rightarrow> pystr \<times> pystr" where
  "lazy_body U [] = ([], [])"
| "lazy_body U (c # r) =
     (if lookahead U (c # r) then ([], c # r)
      else (c # fst (lazy_body U r), snd (lazy_body U r)))"

lemma bracket_at_shorter: "bracket_at U s = Some (ds, rest) \<Longrightarrow> length rest < length s"
proof -
  assume h: "bracket_at U s = Some (ds, rest)"
  then obtain a r where s: "s = a # r"
    by (cases s) (auto simp: bracket_at_def)
  from h s have "rest = drop 1 (dropWhile (is_digit U) r)"
    by (auto simp: bracket_at_def split: if_splits)
  moreover have "length (dropWhile (is_digit U) r) \<le> length r"
    by (rule length_dropWhile_le)
  ultimately show ?thesis using s by simp
qed

lemma lazy_body_le: "length (snd (lazy_body U s)) \<le> length s"
  by (induction s) auto

function finditer_refs :: "ucd \<Rightarrow> pystr \<Rightarrow> (pystr \<times> pystr) list" where
  "finditer_refs U s =
     (case bracket_at U s of
        Some (ds, rest) \<Rightarrow>
          (ds, fst (lazy_body U rest)) # finditer_refs U (snd (lazy_body U rest))
      | None \<Rightarrow> (case s of [] \<Rightarrow> [] | c # r \<Rightarrow> finditer_refs U r))"
  by pat_completeness auto
termination
  by (relation "measure (\<lambda>(U, s). length s)")
     (auto dest!: bracket_at_shorter intro: le_less_trans [OF lazy_body_le])

declare finditer_refs.simps [simp del]

definition split_numbered_refs :: "ucd \<Rightarrow> pystr \<Rightarrow> error + (int \<times> pystr) list" where
  "split_numbered_refs U text =
     map_err (\<lambda>(g1, g2). case py_int U g1 of Inl e \<Rightarrow> Inl e | Inr n \<Rightarrow> Inr (n, py_strip g2))
       (finditer_refs U text)"

section \<open>The reference field extractor\<close>

text \<open>
  \<^verbatim>\<open>
  DOI_RE = re.compile(r"\b(10\.\d{4,9}/[^\s,;]+)", re.IGNORECASE)
  def extract_doi(s: str) -> Optional[str]:
      m = DOI_RE.search(s)
      return m.group(1).rstrip(".").lower() if m else None
  \<close>
  \<open>doi_at\<close> is the pattern at a position, \<open>prev\<close> the character before it (none at the
  start of the text): a word boundary, \<open>10.\<close> (49, 48, 46), four to nine digits, a
  slash (47) and the characters up to the next whitespace, comma (44) or
  semicolon (59), at least one.
\<close>

definition doi_tail :: "nat \<Rightarrow> bool" where
  "doi_tail c = (\<not> is_space c \<and> c \<noteq> 44 \<and> c \<noteq> 59)"

definition doi_at :: "ucd \<Rightarrow> nat option \<Rightarrow> pystr \<Rightarrow> pystr option" where
  "doi_at U prev s =
     (case s of
        a # b # c # r \<Rightarrow>
          if (case prev of None \<Rightarrow> True | Some p \<Rightarrow> \<not> is_word U p)
             \<and> a = 49 \<and> b = 48 \<and> c = 46
             \<and> 4 \<le> length (takeWhile (is_digit U) r) \<and> length (takeWhile (is_digit U) r) \<le> 9
             \<and> take 1 (dropWhile (is_digit U) r) = [47]
             \<and> takeWhile doi_tail (drop 1 (dropWhile (is_digit U) r)) \<noteq> []
          then Some ([49, 48, 46] @ takeWhile (is_digit U) r @ [47]
                      @ takeWhile doi_tail (drop 1 (dropWhile (is_digit U) r)))
          else None
      | _ \<Rightarrow> None)"

fun doi_search :: "ucd \<Rightarrow> nat option \<Rightarrow> pystr \<Rightarrow> pystr option" where
  "doi_search U prev [] = None"
| "doi_search U prev (c # r) =
     (case doi_at U prev (c # r) of Some g \<Rightarrow> Some g | None \<Rightarrow> doi_search U (Some c) r)"

definition extract_doi :: "ucd \<Rightarrow> pystr \<Rightarrow> pystr option" where
  "extract_doi U s =
     map_option (\<lambda>g. py_lower U (rev (dropWhile (\<lambda>c. c = 46) (rev g)))) (doi_search U None s)"

text \<open>
  \<^verbatim>\<open>
  def extract_title(s: str) -> str:
      m = re.search(r"<U+201C>([^<U+201D>]+)<U+201D>", s)
      if m:
          return m.group(1).strip()
      m = re.search(r"\"([^\"]+)\"", s)
      if m:
          return m.group(1).strip()
      return s[:160].strip()
  \<close>
  (the source has the two curly quotes themselves where \<open><U+201C>\<close> and \<open><U+201D>\<close>
  stand). \<open>quoted_at op cl\<close> is the pattern at a position: the opening quote, the
  characters up to the next closing quote, at least one, and the closing quote; it gives
  group 1. \<open>search_quoted\<close> is \<open>re.search\<close>: the leftmost position where the pattern matches.
\<close>

definition quoted_at :: "nat \<Rightarrow> nat \<Rightarrow> pystr \<Rightarrow> pystr option" where
  "quoted_at op cl s =
     (case s of
        [] \<Rightarrow> None
      | a # r \<Rightarrow>
          if a = op \<and> takeWhile (\<lambda>c. c \<noteq> cl) r \<noteq> [] \<and> dropWhile (\<lambda>c. c \<noteq> cl) r \<noteq> []
          then Some (takeWhile (\<lambda>c. c \<noteq> cl) r)
          else None)"

fun search_quoted :: "nat \<Rightarrow> nat \<Rightarrow> pystr \<Rightarrow> pystr option" where
  "search_quoted op cl [] = None"
| "search_quoted op cl (c # r) =
     (case quoted_at op cl (c # r) of Some g \<Rightarrow> Some g | None \<Rightarrow> search_quoted op cl r)"

definition extract_title :: "pystr \<Rightarrow> pystr" where
  "extract_title s =
     (case search_quoted 8220 8221 s of
        Some g \<Rightarrow> py_strip g
      | None \<Rightarrow>
          (case search_quoted 34 34 s of
             Some g \<Rightarrow> py_strip g
           | None \<Rightarrow> py_strip (take 160 s)))"

text \<open>
  \<^verbatim>\<open>
  YEAR_RE = re.compile(r"\b(19|20)\d{2}\b")
  def extract_pub_year(s: str) -> Optional[int]:
      cut = s.split("Accessed:")[0]
      years = [int(m.group(0)) for m in YEAR_RE.finditer(cut)]
      return years[-1] if years else None
  \<close>
  \<open>year_at\<close> is \<open>YEAR_RE\<close> at a position, \<open>prev\<close> the character before it (none at
  the start of the text): a word boundary, \<open>19\<close> (49, 57) or \<open>20\<close> (50, 48), two
  digits, a word boundary. \<open>year_iter\<close> is \<open>finditer\<close>: after a match the scan goes on
  behind its four characters; a text of fewer than four characters has no match.
\<close>

definition year_at :: "ucd \<Rightarrow> nat option \<Rightarrow> pystr \<Rightarrow> bool" where
  "year_at U prev s =
     (case s of
        a # b # c # d # r \<Rightarrow>
          (case prev of None \<Rightarrow> True | Some p \<Rightarrow> \<not> is_word U p)
          \<and> ((a = 49 \<and> b = 57) \<or> (a = 50 \<and> b = 48))
          \<and> is_digit U c \<and> is_digit U d
          \<and> (case r of [] \<Rightarrow> True | e # _ \<Rightarrow> \<not> is_word U e)
      | _ \<Rightarrow> False)"

fun year_iter :: "ucd \<Rightarrow> nat option \<Rightarrow> pystr \<Rightarrow> pystr list" where
  "year_iter U prev (a # b # c # d # r) =
     (if year_at U prev (a # b # c # d # r) then [a, b, c, d] # year_iter U (Some d) r
      else year_iter U (Some a) (b # c # d # r))"
| "year_iter U prev s = []"

definition extract_pub_year :: "ucd \<Rightarrow> pystr \<Rightarrow> error + int option" where
  "extract_pub_year U s =
     (case map_err (py_int U) (year_iter U None (before_first (asc ''Accessed:'') s)) of
        Inl e \<Rightarrow> Inl e
      | Inr years \<Rightarrow> Inr (if years = [] then None else Some (last years)))"

section \<open>The selection resolver\<close>

text \<open>
  \<^verbatim>\<open>
  def parse_selection(selection: str, available_ref_nos: Set[int]) -> List[int]:
      selection = selection.strip().lower()
      if selection == "all":
          return sorted(available_ref_nos)
      chosen: Set[int] = set()
      parts = [p.strip() for p in selection.split(",") if p.strip()]
      for p in parts:
          if "-" in p:
              a, b = p.split("-", 1)
              a_i, b_i = int(a), int(b)
              lo, hi = min(a_i, b_i), max(a_i, b_i)
              for x in range(lo, hi + 1):
                  if x in available_ref_nos:
                      chosen.add(x)
          else:
              x = int(p)
              if x in available_ref_nos:
                  chosen.add(x)
      if not chosen:
          raise ValueError("Selection matched no references in the RTF.")
      return sorted(chosen)
  \<close>
  \<open>p.split("-", 1)\<close> cuts \<open>p\<close> at its first minus (45). \<open>parse_part\<close> is one turn of
  the loop over \<open>parts\<close>, \<open>parse_parts\<close> the loop.
\<close>

definition add_if_available :: "int set \<Rightarrow> int \<Rightarrow> int set \<Rightarrow> int set" where
  "add_if_available available x chosen = (if x \<in> available then insert x chosen else chosen)"

definition parse_part :: "ucd \<Rightarrow> int set \<Rightarrow> pystr \<Rightarrow> int set \<Rightarrow> error + int set" where
  "parse_part U available p chosen =
     (if 45 \<in> set p then
        (case py_int U (takeWhile (\<lambda>c. c \<noteq> 45) p) of
           Inl e \<Rightarrow> Inl e
         | Inr a_i \<Rightarrow>
             (case py_int U (drop 1 (dropWhile (\<lambda>c. c \<noteq> 45) p)) of
                Inl e \<Rightarrow> Inl e
              | Inr b_i \<Rightarrow>
                  Inr (fold (add_if_available available) [min a_i b_i..max a_i b_i] chosen)))
      else
        (case py_int U p of
           Inl e \<Rightarrow> Inl e
         | Inr x \<Rightarrow> Inr (add_if_available available x chosen)))"

fun parse_parts :: "ucd \<Rightarrow> int set \<Rightarrow> pystr list \<Rightarrow> int set \<Rightarrow> error + int set" where
  "parse_parts U available [] chosen = Inr chosen"
| "parse_parts U available (p # ps) chosen =
     (case parse_part U available p chosen of
        Inl e \<Rightarrow> Inl e
      | Inr chosen' \<Rightarrow> parse_parts U available ps chosen')"

definition selection_parts :: "pystr \<Rightarrow> pystr list" where
  "selection_parts selection =
     map py_strip (filter (\<lambda>p. py_strip p \<noteq> []) (split_char 44 selection))"

definition parse_selection :: "ucd \<Rightarrow> pystr \<Rightarrow> int set \<Rightarrow> error + int list" where
  "parse_selection U selection available_ref_nos =
     (if py_lower U (py_strip selection) = asc ''all''
      then Inr (sorted_list_of_set available_ref_nos)
      else
        (case parse_parts U available_ref_nos
                (selection_parts (py_lower U (py_strip selection))) {} of
           Inl e \<Rightarrow> Inl e
         | Inr chosen \<Rightarrow>
             if chosen = {} then Inl NoSelection else Inr (sorted_list_of_set chosen)))"

section \<open>The pipeline of \<open>main\<close>\<close>

text \<open>
  A row is the dict that \<open>main\<close> builds for a chosen reference, an \<open>OAWork\<close> the
  dataclass of the source (its fields \<open>id\<close>, \<open>title\<close>, \<open>year\<close> and \<open>doi\<close> carry the
  prefix \<open>w_\<close> here). A dict is an association list in insertion order, and
  \<open>AList.update\<close> is the assignment \<open>d[k] = v\<close>: it replaces the value of a key that is
  there, in place, and appends a new key.
\<close>

record row =
  ref_no :: int
  rtf_order :: int
  raw :: pystr
  doi :: "pystr option"
  title :: pystr
  pub_year_guess :: "int option"

record OAWork =
  w_id :: pystr
  w_title :: pystr
  w_year :: "int option"
  w_doi :: pystr
  referenced_works :: "pystr list"

text \<open>
  \<^verbatim>\<open>
  ref_map = {n: raw for n, raw in refs}
  available = set(ref_map.keys())
  chosen_ref_nos = parse_selection(args.select, available)
  rows = []
  for ref_no in chosen_ref_nos:
      raw = ref_map[ref_no]
      rows.append({"ref_no": ref_no, "rtf_order": ref_no, "raw": raw,
                   "doi": extract_doi(raw), "title": extract_title(raw),
                   "pub_year_guess": extract_pub_year(raw)})
  \<close>
\<close>

definition build_ref_map :: "(int \<times> pystr) list \<Rightarrow> (int \<times> pystr) list" where
  "build_ref_map refs = fold (\<lambda>(n, raw) d. AList.update n raw d) refs []"

definition make_row :: "ucd \<Rightarrow> (int \<times> pystr) list \<Rightarrow> int \<Rightarrow> error + row" where
  "make_row U ref_map n =
     (case lookup ref_map n of
        Inl e \<Rightarrow> Inl e
      | Inr text \<Rightarrow>
          (case extract_pub_year U text of
             Inl e \<Rightarrow> Inl e
           | Inr y \<Rightarrow>
               Inr \<lparr>ref_no = n, rtf_order = n, raw = text, doi = extract_doi U text,
                    title = extract_title text, pub_year_guess = y\<rparr>))"

text \<open>
  The external service is not part of the repository. \<open>by_doi svc r\<close> is what the lookup
  by identifier gives for the row \<open>r\<close>: \<open>normalize_oa(data)\<close> for a non-empty answer
  \<open>data\<close> of \<open>oa_work_by_doi\<close>, and nothing otherwise. \<open>by_search svc r\<close> is
  \<open>normalize_oa(sr["results"][0])\<close> for an answer \<open>sr\<close> of \<open>oa_search_by_title_year\<close>
  that has results, and nothing otherwise.
  \<^verbatim>\<open>
  for r in rows:
      ref_no = r["ref_no"]
      w = None
      if r["doi"]:
          data = oa_work_by_doi(r["doi"], sleep_s=args.sleep)
          if data:
              w = normalize_oa(data)
      if w is None:
          sr = oa_search_by_title_year(r["title"], r["pub_year_guess"], sleep_s=args.sleep)
          if sr and sr.get("results"):
              w = normalize_oa(sr["results"][0])
      if w is None or not w.id:
          unresolved.append(ref_no)
      else:
          resolved[ref_no] = w
  \<close>
\<close>

record service =
  by_doi :: "row \<Rightarrow> OAWork option"
  by_search :: "row \<Rightarrow> OAWork option"

definition fetch :: "service \<Rightarrow> row \<Rightarrow> OAWork option" where
  "fetch svc r =
     (case (if doi r \<noteq> None \<and> doi r \<noteq> Some [] then by_doi svc r else None) of
        Some w \<Rightarrow> Some w
      | None \<Rightarrow> by_search svc r)"

fun resolve_loop ::
  "service \<Rightarrow> row list \<Rightarrow> (int \<times> OAWork) list \<times> int list \<Rightarrow> (int \<times> OAWork) list \<times> int list"
where
  "resolve_loop svc [] acc = acc"
| "resolve_loop svc (r # rs) (resolved, unresolved) =
     (case fetch svc r of
        None \<Rightarrow> resolve_loop svc rs (resolved, unresolved @ [ref_no r])
      | Some w \<Rightarrow>
          if w_id w = [] then resolve_loop svc rs (resolved, unresolved @ [ref_no r])
          else resolve_loop svc rs (AList.update (ref_no r) w resolved, unresolved))"

text \<open>
  \<^verbatim>\<open>
  node_id_by_ref: Dict[int, str] = {}
  for r in rows:
      ref_no = r["ref_no"]
      w = resolved.get(ref_no)
      node_id_by_ref[ref_no] = w.id if w else f"UNRESOLVED_REF_{ref_no}"
  ref_by_node_id = {nid: ref for ref, nid in node_id_by_ref.items()}
  allowed_node_ids = set(ref_by_node_id.keys())
  \<close>
  An \<open>OAWork\<close> object is always true, so \<open>w.id if w else ...\<close> takes the placeholder
  exactly when \<open>resolved\<close> has no entry for the reference.
\<close>

definition unresolved_id :: "int \<Rightarrow> pystr" where
  "unresolved_id n = asc ''UNRESOLVED_REF_'' @ str_int n"

definition node_id :: "(int \<times> OAWork) list \<Rightarrow> int \<Rightarrow> pystr" where
  "node_id resolved n = (case map_of resolved n of Some w \<Rightarrow> w_id w | None \<Rightarrow> unresolved_id n)"

definition build_node_id_by_ref :: "(int \<times> OAWork) list \<Rightarrow> row list \<Rightarrow> (int \<times> pystr) list" where
  "build_node_id_by_ref resolved rows =
     fold (\<lambda>r d. AList.update (ref_no r) (node_id resolved (ref_no r)) d) rows []"

definition build_ref_by_node_id :: "(int \<times> pystr) list \<Rightarrow> (pystr \<times> int) list" where
  "build_ref_by_node_id node_id_by_ref =
     fold (\<lambda>(ref, nid) d. AList.update nid ref d) node_id_by_ref []"

text \<open>
  The graph is a \<open>networkx.DiGraph\<close>: its nodes with their attributes, in insertion
  order, and its edges, each pair once. \<open>add_node\<close> creates the node or overwrites the
  attributes of the node that is there; \<open>add_edge\<close> creates an endpoint that is not
  yet a node, without attributes.
  \<^verbatim>\<open>
  for r in rows:
      ref_no = r["ref_no"]
      nid = node_id_by_ref[ref_no]
      w = resolved.get(ref_no)
      pub_year = (w.year if (w and w.year) else r["pub_year_guess"]) or ""
      title = (w.title if (w and w.title) else r["title"]) or ""
      doi = (w.doi if (w and w.doi) else (r["doi"] or "")) or ""
      G.add_node(nid, ref_no=ref_no, rtf_order=r["rtf_order"],
                 pub_year=pub_year, doi=doi, title=title)
  \<close>
  A year is true when it is there and not 0; the empty string that stands for no
  year is \<open>None\<close> in \<open>a_pub_year\<close>.
\<close>

record node_attr =
  a_ref_no :: int
  a_rtf_order :: int
  a_pub_year :: "int option"
  a_doi :: pystr
  a_title :: pystr

record digraph =
  nodes :: "(pystr \<times> node_attr option) list"
  edges :: "(pystr \<times> pystr) list"

definition add_node :: "pystr \<Rightarrow> node_attr \<Rightarrow> digraph \<Rightarrow> digraph" where
  "add_node nid a G = G\<lparr>nodes := AList.update nid (Some a) (nodes G)\<rparr>"

definition touch_node :: "pystr \<Rightarrow> (pystr \<times> node_attr option) list \<Rightarrow> (pystr \<times> node_attr option) list" where
  "touch_node nid ns = (if nid \<in> set (map fst ns) then ns else ns @ [(nid, None)])"

definition add_edge :: "pystr \<Rightarrow> pystr \<Rightarrow> digraph \<Rightarrow> digraph" where
  "add_edge u v G =
     \<lparr>nodes = touch_node v (touch_node u (nodes G)),
      edges = (if (u, v) \<in> set (edges G) then edges G else edges G @ [(u, v)])\<rparr>"

definition truthy_year :: "int option \<Rightarrow> bool" where
  "truthy_year y = (y \<noteq> None \<and> y \<noteq> Some 0)"

definition node_attrs :: "(int \<times> OAWork) list \<Rightarrow> row \<Rightarrow> node_attr" where
  "node_attrs resolved r =
     (let w = map_of resolved (ref_no r);
          y = (case w of
                 None \<Rightarrow> pub_year_guess r
               | Some w' \<Rightarrow> if truthy_year (w_year w') then w_year w' else pub_year_guess r);
          t = (case w of
                 None \<Rightarrow> title r
               | Some w' \<Rightarrow> if w_title w' \<noteq> [] then w_title w' else title r);
          d = (case w of
                 None \<Rightarrow> (case doi r of None \<Rightarrow> [] | Some x \<Rightarrow> x)
               | Some w' \<Rightarrow> if w_doi w' \<noteq> [] then w_doi w'
                             else (case doi r of None \<Rightarrow> [] | Some x \<Rightarrow> x))
      in \<lparr>a_ref_no = ref_no r, a_rtf_order = rtf_order r,
          a_pub_year = (if truthy_year y then y else None), a_doi = d, a_title = t\<rparr>)"

fun add_nodes ::
  "(int \<times> OAWork) list \<Rightarrow> (int \<times> pystr) list \<Rightarrow> row list \<Rightarrow> digraph \<Rightarrow> error + digraph"
where
  "add_nodes resolved node_id_by_ref [] G = Inr G"
| "add_nodes resolved node_id_by_ref (r # rs) G =
     (case lookup node_id_by_ref (ref_no r) of
        Inl e \<Rightarrow> Inl e
      | Inr nid \<Rightarrow> add_nodes resolved node_id_by_ref rs (add_node nid (node_attrs resolved r) G))"

text \<open>
  \<^verbatim>\<open>
  edges_rows = []
  for ref_no, w in resolved.items():
      src = node_id_by_ref[ref_no]
      for tgt in w.referenced_works:
          if tgt in allowed_node_ids:
              G.add_edge(src, tgt)
              edges_rows.append({"citing_ref_no": ref_by_node_id[src],
                                 "cited_ref_no": ref_by_node_id[tgt]})
  \<close>
  \<open>add_targets\<close> is the inner loop, \<open>add_edges\<close> the outer one.
\<close>

fun add_targets ::
  "(pystr \<times> int) list \<Rightarrow> pystr \<Rightarrow> pystr list \<Rightarrow> digraph \<times> (int \<times> int) list
     \<Rightarrow> error + digraph \<times> (int \<times> int) list"
where
  "add_targets ref_by_node_id src [] acc = Inr acc"
| "add_targets ref_by_node_id src (tgt # ts) (G, edges_rows) =
     (if tgt \<in> set (map fst ref_by_node_id) then
        (case lookup ref_by_node_id src of
           Inl e \<Rightarrow> Inl e
         | Inr a \<Rightarrow>
             (case lookup ref_by_node_id tgt of
                Inl e \<Rightarrow> Inl e
              | Inr b \<Rightarrow>
                  add_targets ref_by_node_id src ts (add_edge src tgt G, edges_rows @ [(a, b)])))
      else add_targets ref_by_node_id src ts (G, edges_rows))"

fun add_edges ::
  "(int \<times> pystr) list \<Rightarrow> (pystr \<times> int) list \<Rightarrow> (int \<times> OAWork) list
     \<Rightarrow> digraph \<times> (int \<times> int) list \<Rightarrow> error + digraph \<times> (int \<times> int) list"
where
  "add_edges node_id_by_ref ref_by_node_id [] acc = Inr acc"
| "add_edges node_id_by_ref ref_by_node_id ((n, w) # rest) acc =
     (case lookup node_id_by_ref n of
        Inl e \<Rightarrow> Inl e
      | Inr src \<Rightarrow>
          (case add_targets ref_by_node_id src (referenced_works w) acc of
             Inl e \<Rightarrow> Inl e
           | Inr acc' \<Rightarrow> add_edges node_id_by_ref ref_by_node_id rest acc'))"

definition build_graph ::
  "(int \<times> OAWork) list \<Rightarrow> row list \<Rightarrow> error + digraph \<times> (int \<times> int) list"
where
  "build_graph resolved rows =
     (let node_id_by_ref = build_node_id_by_ref resolved rows;
          ref_by_node_id = build_ref_by_node_id node_id_by_ref
      in case add_nodes resolved node_id_by_ref rows \<lparr>nodes = [], edges = []\<rparr> of
           Inl e \<Rightarrow> Inl e
         | Inr G \<Rightarrow> add_edges node_id_by_ref ref_by_node_id resolved (G, []))"

text \<open>
  \<^verbatim>\<open>
  year_by_ref = {r["ref_no"]: r["pub_year_guess"] for r in rows}
  for ref_no, w in resolved.items():
      if w.year:
          year_by_ref[ref_no] = w.year
  violations = []
  for _, e in edges_df.iterrows():
      a, b = int(e["citing_ref_no"]), int(e["cited_ref_no"])
      ya, yb = year_by_ref.get(a), year_by_ref.get(b)
      if ya and yb and ya < yb:
          violations.append((a, b, ya, yb))
  \<close>
  \<open>edges_df\<close> holds the rows of \<open>edges_rows\<close>, in their order. \<open>get_year d n\<close> is
  \<open>d.get(n)\<close>: nothing for a key that is not there, and for a key whose value is \<open>None\<close>.
\<close>

definition build_year_by_ref :: "row list \<Rightarrow> (int \<times> OAWork) list \<Rightarrow> (int \<times> int option) list" where
  "build_year_by_ref rows resolved =
     fold (\<lambda>(n, w) d. if truthy_year (w_year w) then AList.update n (w_year w) d else d) resolved
       (fold (\<lambda>r d. AList.update (ref_no r) (pub_year_guess r) d) rows [])"

definition get_year :: "(int \<times> int option) list \<Rightarrow> int \<Rightarrow> int option" where
  "get_year d n = (case map_of d n of None \<Rightarrow> None | Some y \<Rightarrow> y)"

fun check_edges ::
  "(int \<times> int option) list \<Rightarrow> (int \<times> int) list \<Rightarrow> (int \<times> int \<times> int \<times> int) list"
where
  "check_edges year_by_ref [] = []"
| "check_edges year_by_ref ((a, b) # es) =
     (case (get_year year_by_ref a, get_year year_by_ref b) of
        (Some ya, Some yb) \<Rightarrow>
          if ya \<noteq> 0 \<and> yb \<noteq> 0 \<and> ya < yb then (a, b, ya, yb) # check_edges year_by_ref es
          else check_edges year_by_ref es
      | _ \<Rightarrow> check_edges year_by_ref es)"

text \<open>
  The run: what \<open>main\<close> has computed when it prints its report. Reading the file
  and writing the three output files are outside the model; \<open>rtf\<close> is the content
  read and \<open>select\<close> the selection expression. \<open>refs_found\<close> is \<open>len(refs)\<close>, the
  count that the report prints as the references found.
\<close>

record run =
  refs_found :: nat
  chosen_ref_nos :: "int list"
  rows_of :: "row list"
  resolved_of :: "(int \<times> OAWork) list"
  unresolved_of :: "int list"
  graph :: digraph
  edges_rows_of :: "(int \<times> int) list"
  violations :: "(int \<times> int \<times> int \<times> int) list"

definition run_chosen ::
  "ucd \<Rightarrow> service \<Rightarrow> (int \<times> pystr) list \<Rightarrow> int list \<Rightarrow> error + run"
where
  "run_chosen U svc refs chosen =
     (case map_err (make_row U (build_ref_map refs)) chosen of
        Inl e \<Rightarrow> Inl e
      | Inr rows \<Rightarrow>
          (let res = resolve_loop svc rows ([], []) in
           case build_graph (fst res) rows of
             Inl e \<Rightarrow> Inl e
           | Inr (G, edges_rows) \<Rightarrow>
               Inr \<lparr>refs_found = length refs, chosen_ref_nos = chosen, rows_of = rows,
                    resolved_of = fst res, unresolved_of = snd res, graph = G,
                    edges_rows_of = edges_rows,
                    violations = check_edges (build_year_by_ref rows (fst res)) edges_rows\<rparr>))"

definition main :: "ucd \<Rightarrow> service \<Rightarrow> pystr \<Rightarrow> pystr \<Rightarrow> error + run" where
  "main U svc rtf select =
     (case rtf_to_text U rtf of
        Inl e \<Rightarrow> Inl e
      | Inr txt \<Rightarrow>
          (case split_numbered_refs U txt of
             Inl e \<Rightarrow> Inl e
           | Inr refs \<Rightarrow>
               if refs = [] then Inl NoReferences
               else
                 (case parse_selection U select (set (map fst (build_ref_map refs))) of
                    Inl e \<Rightarrow> Inl e
                  | Inr chosen \<Rightarrow> run_chosen U svc refs chosen)))"

section \<open>Properties of the title extractor\<close>

text \<open>
  What the claims say, in their own words. \<open>quoted_span op cl s i g\<close>: a quoted span
  opens at position \<open>i\<close> of \<open>s\<close> and \<open>g\<close> is its content, that is, the opening
  quote stands at \<open>i\<close>, then \<open>g\<close>, not empty and free of the closing quote, then the
  closing quote. \<open>first_quoted_span\<close> is the first quoted span of the text when curly
  and straight quotes both delimit one: the span that opens leftmost, of either kind.
\<close>

definition quoted_span :: "nat \<Rightarrow> nat \<Rightarrow> pystr \<Rightarrow> nat \<Rightarrow> pystr \<Rightarrow> bool" where
  "quoted_span op cl s i g =
     (\<exists>post. drop i s = op # g @ cl # post \<and> g \<noteq> [] \<and> cl \<notin> set g)"

fun first_quoted_span :: "pystr \<Rightarrow> pystr option" where
  "first_quoted_span [] = None"
| "first_quoted_span (c # r) =
     (case quoted_at 8220 8221 (c # r) of
        Some g \<Rightarrow> Some g
      | None \<Rightarrow>
          (case quoted_at 34 34 (c # r) of
             Some g \<Rightarrow> Some g
           | None \<Rightarrow> first_quoted_span r))"

lemma quoted_at_iff:
  "quoted_at op cl t = Some g \<longleftrightarrow> (\<exists>post. t = op # g @ cl # post \<and> g \<noteq> [] \<and> cl \<notin> set g)"
proof
  assume h: "quoted_at op cl t = Some g"
  then obtain r where t: "t = op # r" and g: "g = takeWhile (\<lambda>c. c \<noteq> cl) r"
    and ne: "g \<noteq> []" and d: "dropWhile (\<lambda>c. c \<noteq> cl) r \<noteq> []"
    by (cases t) (auto simp: quoted_at_def split: if_splits)
  from d have "hd (dropWhile (\<lambda>c. c \<noteq> cl) r) = cl"
    using hd_dropWhile [of "\<lambda>c. c \<noteq> cl" r] by auto
  with d obtain post where p: "dropWhile (\<lambda>c. c \<noteq> cl) r = cl # post"
    by (cases "dropWhile (\<lambda>c. c \<noteq> cl) r") auto
  have "r = g @ cl # post"
    using takeWhile_dropWhile_id [of "\<lambda>c. c \<noteq> cl" r] g p by simp
  moreover have "cl \<notin> set g"
    using g by (auto dest: set_takeWhileD)
  ultimately show "\<exists>post. t = op # g @ cl # post \<and> g \<noteq> [] \<and> cl \<notin> set g"
    using t ne by auto
next
  assume "\<exists>post. t = op # g @ cl # post \<and> g \<noteq> [] \<and> cl \<notin> set g"
  then obtain post where t: "t = op # g @ cl # post" and ne: "g \<noteq> []" and n: "cl \<notin> set g"
    by auto
  have tw: "takeWhile (\<lambda>c. c \<noteq> cl) (g @ cl # post) = g"
    using n by (subst takeWhile_append2) auto
  have dw: "dropWhile (\<lambda>c. c \<noteq> cl) (g @ cl # post) = cl # post"
    using n by (subst dropWhile_append2) auto
  show "quoted_at op cl t = Some g"
    using t ne tw dw by (simp add: quoted_at_def)
qed

lemma quoted_at_span: "quoted_at op cl (drop i s) = Some g \<longleftrightarrow> quoted_span op cl s i g"
  by (simp add: quoted_at_iff quoted_span_def)

lemma search_quoted_Some:
  "search_quoted op cl s = Some g \<longleftrightarrow>
     (\<exists>i. quoted_span op cl s i g \<and> (\<forall>j<i. \<forall>g'. \<not> quoted_span op cl s j g'))"
proof (induction s)
  case Nil
  show ?case by (simp add: quoted_span_def)
next
  case (Cons c r)
  have shift: "\<And>i g. quoted_span op cl (c # r) (Suc i) g = quoted_span op cl r i g"
    by (simp add: quoted_span_def)
  show ?case
  proof (cases "quoted_at op cl (c # r)")
    case (Some g0)
    then have s0: "quoted_span op cl (c # r) 0 g0"
      using quoted_at_span [of op cl 0 "c # r" g0] by simp
    show ?thesis
    proof
      assume "search_quoted op cl (c # r) = Some g"
      with Some have "g = g0" by simp
      with s0 show "\<exists>i. quoted_span op cl (c # r) i g \<and> (\<forall>j<i. \<forall>g'. \<not> quoted_span op cl (c # r) j g')"
        by (intro exI [of _ 0]) simp
    next
      assume "\<exists>i. quoted_span op cl (c # r) i g \<and> (\<forall>j<i. \<forall>g'. \<not> quoted_span op cl (c # r) j g')"
      then obtain i where i: "quoted_span op cl (c # r) i g"
        and m: "\<forall>j<i. \<forall>g'. \<not> quoted_span op cl (c # r) j g'" by blast
      from m s0 have "i = 0" by (cases i) auto
      with i have "quoted_at op cl (c # r) = Some g"
        using quoted_at_span [of op cl 0 "c # r" g] by simp
      with Some show "search_quoted op cl (c # r) = Some g" by simp
    qed
  next
    case None
    then have n0: "\<And>g'. \<not> quoted_span op cl (c # r) 0 g'"
      using quoted_at_span [of op cl 0 "c # r"] by simp
    have "search_quoted op cl (c # r) = Some g \<longleftrightarrow> search_quoted op cl r = Some g"
      using None by simp
    also have "\<dots> \<longleftrightarrow> (\<exists>i. quoted_span op cl r i g \<and> (\<forall>j<i. \<forall>g'. \<not> quoted_span op cl r j g'))"
      by (rule Cons.IH)
    also have "\<dots> \<longleftrightarrow> (\<exists>i. quoted_span op cl (c # r) i g \<and> (\<forall>j<i. \<forall>g'. \<not> quoted_span op cl (c # r) j g'))"
    proof
      assume "\<exists>i. quoted_span op cl r i g \<and> (\<forall>j<i. \<forall>g'. \<not> quoted_span op cl r j g')"
      then obtain i where i: "quoted_span op cl r i g" and m: "\<forall>j<i. \<forall>g'. \<not> quoted_span op cl r j g'"
        by blast
      have "\<forall>j<Suc i. \<forall>g'. \<not> quoted_span op cl (c # r) j g'"
      proof (intro allI impI)
        fix j g' assume "j < Suc i"
        then show "\<not> quoted_span op cl (c # r) j g'"
          using n0 m shift by (cases j) auto
      qed
      with i shift show "\<exists>i. quoted_span op cl (c # r) i g \<and> (\<forall>j<i. \<forall>g'. \<not> quoted_span op cl (c # r) j g')"
        by (intro exI [of _ "Suc i"]) simp
    next
      assume "\<exists>i. quoted_span op cl (c # r) i g \<and> (\<forall>j<i. \<forall>g'. \<not> quoted_span op cl (c # r) j g')"
      then obtain i where i: "quoted_span op cl (c # r) i g"
        and m: "\<forall>j<i. \<forall>g'. \<not> quoted_span op cl (c # r) j g'" by blast
      from i n0 obtain k where k: "i = Suc k" by (cases i) auto
      have "\<forall>j<k. \<forall>g'. \<not> quoted_span op cl r j g'"
      proof (intro allI impI)
        fix j g' assume "j < k"
        then have "Suc j < i" using k by simp
        with m have "\<not> quoted_span op cl (c # r) (Suc j) g'" by blast
        then show "\<not> quoted_span op cl r j g'" using shift by simp
      qed
      with i k shift show "\<exists>i. quoted_span op cl r i g \<and> (\<forall>j<i. \<forall>g'. \<not> quoted_span op cl r j g')"
        by (intro exI [of _ k]) simp
    qed
    finally show ?thesis .
  qed
qed

lemma search_quoted_None:
  "search_quoted op cl s = None \<longleftrightarrow> (\<forall>i g. \<not> quoted_span op cl s i g)"
proof
  assume n: "search_quoted op cl s = None"
  show "\<forall>i g. \<not> quoted_span op cl s i g"
  proof (intro allI notI)
    fix i g assume q: "quoted_span op cl s i g"
    define P where "P = (\<lambda>j. \<exists>g'. quoted_span op cl s j g')"
    have "P i" using q P_def by blast
    then have "P (LEAST j. P j)"
      by (rule LeastI)
    have least: "\<And>j. j < (LEAST j. P j) \<Longrightarrow> \<not> P j"
      by (rule not_less_Least)
    from \<open>P (LEAST j. P j)\<close>
    obtain g' where "quoted_span op cl s (LEAST j. P j) g'"
      using P_def by blast
    moreover have "\<forall>j<(LEAST j. P j). \<forall>g''. \<not> quoted_span op cl s j g''"
      using least P_def by blast
    ultimately have "search_quoted op cl s = Some g'"
      using search_quoted_Some [of op cl s g'] by blast
    with n show False by simp
  qed
next
  assume a: "\<forall>i g. \<not> quoted_span op cl s i g"
  show "search_quoted op cl s = None"
  proof (cases "search_quoted op cl s")
    case None then show ?thesis .
  next
    case (Some g)
    then show ?thesis using search_quoted_Some [of op cl s g] a by blast
  qed
qed

definition first_span :: "nat \<Rightarrow> nat \<Rightarrow> pystr \<Rightarrow> nat \<Rightarrow> pystr \<Rightarrow> bool" where
  "first_span op cl s i g =
     (quoted_span op cl s i g \<and> (\<forall>j<i. \<forall>g'. \<not> quoted_span op cl s j g'))"

definition no_span :: "nat \<Rightarrow> nat \<Rightarrow> pystr \<Rightarrow> bool" where
  "no_span op cl s = (\<forall>i g. \<not> quoted_span op cl s i g)"

lemma first_span_quoted_at:
  "first_span op cl s i g \<longleftrightarrow>
     quoted_at op cl (drop i s) = Some g \<and> (\<forall>j<i. quoted_at op cl (drop j s) = None)"
proof -
  have "\<And>j. (\<forall>g'. \<not> quoted_span op cl s j g') \<longleftrightarrow> quoted_at op cl (drop j s) = None"
    using quoted_at_span [of op cl _ s] by (metis option.exhaust option.distinct(1))
  then show ?thesis
    by (simp add: first_span_def quoted_at_span)
qed

text \<open>
  C4, as amended: the title is the trimmed content of the first span in curly quotes
  when the text has one; otherwise the trimmed content of the first span in straight
  quotes when the text has one; otherwise the first 160 characters, trimmed.
\<close>

theorem extract_title_spans:
  "(first_span 8220 8221 s i g \<longrightarrow> extract_title s = py_strip g)
   \<and> (no_span 8220 8221 s \<and> first_span 34 34 s i g \<longrightarrow> extract_title s = py_strip g)
   \<and> (no_span 8220 8221 s \<and> no_span 34 34 s \<longrightarrow> extract_title s = py_strip (take 160 s))"
proof (intro conjI impI)
  assume "first_span 8220 8221 s i g"
  then have "search_quoted 8220 8221 s = Some g"
    using search_quoted_Some [of 8220 8221 s g] by (auto simp: first_span_def)
  then show "extract_title s = py_strip g"
    by (simp add: extract_title_def)
next
  assume h: "no_span 8220 8221 s \<and> first_span 34 34 s i g"
  then have "search_quoted 8220 8221 s = None"
    using search_quoted_None [of 8220 8221 s] by (simp add: no_span_def)
  moreover from h have "search_quoted 34 34 s = Some g"
    using search_quoted_Some [of 34 34 s g] by (auto simp: first_span_def)
  ultimately show "extract_title s = py_strip g"
    by (simp add: extract_title_def)
next
  assume h: "no_span 8220 8221 s \<and> no_span 34 34 s"
  then have "search_quoted 8220 8221 s = None" "search_quoted 34 34 s = None"
    using search_quoted_None [of 8220 8221 s] search_quoted_None [of 34 34 s]
    by (simp_all add: no_span_def)
  then show "extract_title s = py_strip (take 160 s)"
    by (simp add: extract_title_def)
qed

text \<open>The three cases of C4 at concrete texts.\<close>

theorem extract_title_spans_witness:
  "first_span 8220 8221 [34, 65, 34, 32, 8220, 66, 8221] 4 (asc ''B'')
   \<and> extract_title [34, 65, 34, 32, 8220, 66, 8221] = asc ''B''
   \<and> no_span 8220 8221 [120, 32, 34, 65, 34, 32, 121]
   \<and> first_span 34 34 [120, 32, 34, 65, 34, 32, 121] 2 (asc ''A'')
   \<and> extract_title [120, 32, 34, 65, 34, 32, 121] = asc ''A''
   \<and> no_span 8220 8221 (asc '' ab '') \<and> no_span 34 34 (asc '' ab '')
   \<and> extract_title (asc '' ab '') = asc ''ab''"
proof -
  have lt4: "\<And>P. (\<forall>j<4::nat. P j) \<longleftrightarrow> P 0 \<and> P 1 \<and> P 2 \<and> P 3"
    by (simp add: numeral_eq_Suc less_Suc_eq) auto
  have lt2: "\<And>P. (\<forall>j<2::nat. P j) \<longleftrightarrow> P 0 \<and> P 1"
    by (simp add: numeral_eq_Suc less_Suc_eq) auto
  have a: "first_span 8220 8221 [34, 65, 34, 32, 8220, 66, 8221] 4 (asc ''B'')"
    by (simp add: first_span_quoted_at lt4 quoted_at_def asc_def)
  have b: "no_span 8220 8221 [120, 32, 34, 65, 34, 32, 121]"
    using search_quoted_None [of 8220 8221 "[120, 32, 34, 65, 34, 32, 121]"]
    by (simp add: no_span_def quoted_at_def)
  have c: "first_span 34 34 [120, 32, 34, 65, 34, 32, 121] 2 (asc ''A'')"
    by (simp add: first_span_quoted_at lt2 quoted_at_def asc_def)
  have d: "no_span 8220 8221 (asc '' ab '')"
    using search_quoted_None [of 8220 8221 "asc '' ab ''"]
    by (simp add: no_span_def quoted_at_def asc_def)
  have e: "no_span 34 34 (asc '' ab '')"
    using search_quoted_None [of 34 34 "asc '' ab ''"]
    by (simp add: no_span_def quoted_at_def asc_def)
  have s1: "py_strip (asc ''B'') = asc ''B''" "py_strip (asc ''A'') = asc ''A''"
    "py_strip (take 160 (asc '' ab '')) = asc ''ab''"
    by (simp_all add: py_strip_def is_space_def asc_def)
  show ?thesis
    using a b c d e s1
      extract_title_spans [of "[34, 65, 34, 32, 8220, 66, 8221]" 4 "asc ''B''"]
      extract_title_spans [of "[120, 32, 34, 65, 34, 32, 121]" 2 "asc ''A''"]
      extract_title_spans [of "asc '' ab ''" 0 "[]"]
    by (simp add: asc_def)
qed

text \<open>
  C4 as stated fails where a span in straight quotes stands before one in curly quotes:
  the first quoted span of \<open>"A" <U+201C>B<U+201D>\<close> is \<open>A\<close>, the title extracted is \<open>B\<close>.
\<close>

theorem extract_title_counterexample:
  "first_quoted_span [34, 65, 34, 32, 8220, 66, 8221] = Some (asc ''A'')
   \<and> extract_title [34, 65, 34, 32, 8220, 66, 8221] = asc ''B''"
  by (simp add: extract_title_def quoted_at_def py_strip_def is_space_def asc_def)

section \<open>Concrete inputs\<close>

text \<open>
  Concrete inputs for the examples: a character database that knows no digit and no
  letter from 128 on (the texts of the examples are ASCII, where it is never read) and a
  service that answers nothing. The collections of rules below evaluate the model on a
  concrete text.
\<close>

definition plain_ucd :: ucd where
  "plain_ucd = \<lparr>u_digit = (\<lambda>c. None), u_alnum = (\<lambda>c. False), u_lower = (\<lambda>s. s)\<rparr>"

definition no_service :: service where
  "no_service = \<lparr>by_doi = (\<lambda>r. None), by_search = (\<lambda>r. None)\<rparr>"

lemmas char_defs = is_space_def digit_val_def is_digit_def is_ascii_letter_def is_word_def
  is_hex_def is_blank_def int_space_def doi_tail_def

lemmas text_defs = asc_def py_strip_def startswith_def skip_opt_def uni_at_def ctrl_at_def
  sub_uni.simps sub_ctrl.simps remove_braces_def rtf_to_text_def

lemmas seg_defs = bracket_at_def lookahead_def finditer_refs.simps split_numbered_refs_def
  py_int_def int_unsigned_def

lemmas field_defs = doi_at_def extract_doi_def quoted_at_def extract_title_def year_at_def
  extract_pub_year_def

lemmas select_defs = add_if_available_def parse_part_def selection_parts_def parse_selection_def
  py_lower_def

lemmas graph_defs = build_ref_map_def make_row_def lookup_def fetch_def unresolved_id_def
  node_id_def build_node_id_by_ref_def build_ref_by_node_id_def add_node_def touch_node_def
  add_edge_def truthy_year_def node_attrs_def build_graph_def build_year_by_ref_def get_year_def
  run_chosen_def str_int_def str_nat.simps

section \<open>Duplicated reference numbers\<close>

lemma map_of_fold_update:
  "map_of (fold (\<lambda>(k, v) d. AList.update k v d) xs d) = map_of d ++ map_of (rev xs)"
proof (induction xs arbitrary: d)
  case Nil
  show ?case by simp
next
  case (Cons x xs)
  obtain k v where x: "x = (k, v)" by (cases x)
  have "map_of (fold (\<lambda>(k, v) d. AList.update k v d) (x # xs) d)
      = map_of (AList.update k v d) ++ map_of (rev xs)"
    using Cons.IH [of "AList.update k v d"] x by simp
  also have "\<dots> = (map_of d ++ [k \<mapsto> v]) ++ map_of (rev xs)"
    by (simp add: update_conv')
  also have "\<dots> = map_of d ++ map_of (rev (x # xs))"
    using x by (simp add: map_add_assoc)
  finally show ?case .
qed

lemma map_of_build_ref_map: "map_of (build_ref_map refs) = map_of (rev refs)"
  by (simp add: build_ref_map_def map_of_fold_update)

lemma map_of_rev_last:
  "n \<notin> fst ` set ys \<Longrightarrow> map_of (rev (xs @ (n, v) # ys)) n = Some v"
proof -
  assume "n \<notin> fst ` set ys"
  then have "map_of (rev ys) n = None"
    by (simp add: map_of_eq_None_iff)
  then show ?thesis
    by (simp add: map_add_def)
qed

lemma lookup_last_occurrence:
  "n \<notin> fst ` set ys \<Longrightarrow> lookup (build_ref_map (xs @ (n, v) # ys)) n = Inr v"
  by (simp add: lookup_def map_of_build_ref_map map_of_rev_last del: rev_append rev.simps)

lemma map_err_Inr:
  "map_err f xs = Inr ys \<Longrightarrow> length ys = length xs \<and> (\<forall>i<length xs. f (xs ! i) = Inr (ys ! i))"
proof (induction xs arbitrary: ys)
  case Nil
  then show ?case by simp
next
  case (Cons x xs)
  from Cons.prems obtain y ys' where y: "f x = Inr y" and r: "map_err f xs = Inr ys'"
    and e: "ys = y # ys'"
    by (auto split: sum.splits)
  from Cons.IH [OF r] have "length ys' = length xs" and "\<forall>i<length xs. f (xs ! i) = Inr (ys' ! i)"
    by auto
  with y e show ?case
    by (auto simp: nth_Cons split: nat.splits)
qed

lemma map_err_member:
  "map_err f xs = Inr ys \<Longrightarrow> y \<in> set ys \<Longrightarrow> \<exists>x\<in>set xs. f x = Inr y"
  by (metis in_set_conv_nth map_err_Inr)

lemma make_row_fields:
  "make_row U m k = Inr r \<Longrightarrow>
     ref_no r = k \<and> rtf_order r = k \<and> lookup m k = Inr (raw r) \<and> doi r = extract_doi U (raw r)
     \<and> title r = extract_title (raw r) \<and> extract_pub_year U (raw r) = Inr (pub_year_guess r)"
  by (auto simp: make_row_def split: sum.splits)

lemma run_chosen_fields:
  "run_chosen U svc refs chosen = Inr R \<Longrightarrow>
     refs_found R = length refs \<and> chosen_ref_nos R = chosen
     \<and> map_err (make_row U (build_ref_map refs)) chosen = Inr (rows_of R)
     \<and> resolved_of R = fst (resolve_loop svc (rows_of R) ([], []))
     \<and> unresolved_of R = snd (resolve_loop svc (rows_of R) ([], []))
     \<and> build_graph (resolved_of R) (rows_of R) = Inr (graph R, edges_rows_of R)
     \<and> violations R = check_edges (build_year_by_ref (rows_of R) (resolved_of R)) (edges_rows_of R)"
  by (auto simp: run_chosen_def Let_def split: sum.splits prod.splits)

lemma main_run_chosen:
  "main U svc rtf select = Inr R \<Longrightarrow>
     \<exists>txt refs chosen. rtf_to_text U rtf = Inr txt \<and> split_numbered_refs U txt = Inr refs \<and> refs \<noteq> []
       \<and> parse_selection U select (set (map fst (build_ref_map refs))) = Inr chosen
       \<and> run_chosen U svc refs chosen = Inr R"
  by (auto simp: main_def split: sum.splits if_splits)

text \<open>
  C9: when the segmented text has several blocks with the number \<open>n\<close> and \<open>text\<close> is
  the raw text of the last of them, the map from numbers to texts holds \<open>text\<close> for
  \<open>n\<close>; the row of \<open>n\<close> in a run has this text and the fields extracted from it, and
  the count of references found is the number of all blocks.
\<close>

theorem duplicate_ref_no_last_wins:
  "rtf_to_text U rtf = Inr txt \<and> split_numbered_refs U txt = Inr (xs @ (n, text) # ys)
   \<and> n \<notin> fst ` set ys \<and> main U svc rtf select = Inr R
   \<longrightarrow> lookup (build_ref_map (xs @ (n, text) # ys)) n = Inr text
       \<and> refs_found R = length xs + 1 + length ys
       \<and> (\<forall>r\<in>set (rows_of R). ref_no r = n \<longrightarrow>
             raw r = text \<and> doi r = extract_doi U text \<and> title r = extract_title text
             \<and> extract_pub_year U text = Inr (pub_year_guess r))"
proof (intro impI)
  assume h: "rtf_to_text U rtf = Inr txt \<and> split_numbered_refs U txt = Inr (xs @ (n, text) # ys)
   \<and> n \<notin> fst ` set ys \<and> main U svc rtf select = Inr R"
  define refs where "refs = xs @ (n, text) # ys"
  from h have last: "lookup (build_ref_map refs) n = Inr text"
    unfolding refs_def by (simp add: lookup_last_occurrence)
  from h obtain chosen where rc: "run_chosen U svc refs chosen = Inr R"
    using main_run_chosen [of U svc rtf select R] refs_def by auto
  note f = run_chosen_fields [OF rc]
  have rows: "\<forall>r\<in>set (rows_of R). ref_no r = n \<longrightarrow>
             raw r = text \<and> doi r = extract_doi U text \<and> title r = extract_title text
             \<and> extract_pub_year U text = Inr (pub_year_guess r)"
  proof (intro ballI impI)
    fix r assume r: "r \<in> set (rows_of R)" and rn: "ref_no r = n"
    from f r obtain k where "make_row U (build_ref_map refs) k = Inr r"
      using map_err_member [of "make_row U (build_ref_map refs)" chosen "rows_of R" r] by auto
    from make_row_fields [OF this] rn last
    show "raw r = text \<and> doi r = extract_doi U text \<and> title r = extract_title text
             \<and> extract_pub_year U text = Inr (pub_year_guess r)"
      by auto
  qed
  from f have "refs_found R = length xs + 1 + length ys"
    by (simp add: refs_def)
  with last rows show "lookup (build_ref_map (xs @ (n, text) # ys)) n = Inr text
       \<and> refs_found R = length xs + 1 + length ys
       \<and> (\<forall>r\<in>set (rows_of R). ref_no r = n \<longrightarrow>
             raw r = text \<and> doi r = extract_doi U text \<and> title r = extract_title text
             \<and> extract_pub_year U text = Inr (pub_year_guess r))"
    by (simp add: refs_def)
qed

definition dup_doc :: pystr where
  "dup_doc = asc ''[1]a'' @ [10] @ asc ''[1]b''"

lemma dup_text: "rtf_to_text U dup_doc = Inr dup_doc"
  by (simp add: dup_doc_def text_defs char_defs)

lemma dup_refs:
  "split_numbered_refs U dup_doc = Inr [(1, asc ''a''), (1, asc ''b'')]"
  by (simp add: dup_doc_def seg_defs asc_def py_strip_def startswith_def char_defs)

lemma dup_select:
  "parse_selection U (asc ''1'') (set (map fst (build_ref_map [(1, asc ''a''), (1, asc ''b'')]))) = Inr [1]"
  by (simp add: select_defs seg_defs asc_def py_strip_def char_defs build_ref_map_def)

lemma dup_run:
  "run_chosen U no_service [(1, asc ''a''), (1, asc ''b'')] [1] =
     Inr \<lparr>refs_found = 2, chosen_ref_nos = [1],
          rows_of = [\<lparr>ref_no = 1, rtf_order = 1, raw = [98], doi = None, title = [98],
                      pub_year_guess = None\<rparr>],
          resolved_of = [], unresolved_of = [1],
          graph = \<lparr>nodes = [(asc ''UNRESOLVED_REF_1'',
                             Some \<lparr>a_ref_no = 1, a_rtf_order = 1, a_pub_year = None,
                                    a_doi = [], a_title = [98]\<rparr>)],
                    edges = []\<rparr>,
          edges_rows_of = [], violations = []\<rparr>"
  by (simp add: graph_defs field_defs no_service_def asc_def py_strip_def startswith_def char_defs)

lemma dup_main:
  "main U no_service dup_doc (asc ''1'') =
     Inr \<lparr>refs_found = 2, chosen_ref_nos = [1],
          rows_of = [\<lparr>ref_no = 1, rtf_order = 1, raw = [98], doi = None, title = [98],
                      pub_year_guess = None\<rparr>],
          resolved_of = [], unresolved_of = [1],
          graph = \<lparr>nodes = [(asc ''UNRESOLVED_REF_1'',
                             Some \<lparr>a_ref_no = 1, a_rtf_order = 1, a_pub_year = None,
                                    a_doi = [], a_title = [98]\<rparr>)],
                    edges = []\<rparr>,
          edges_rows_of = [], violations = []\<rparr>"
  by (simp add: main_def dup_text dup_refs dup_select dup_run del: set_map)

text \<open>C9 on a text with two blocks numbered 1: the row of 1 has the text of the second.\<close>

theorem duplicate_ref_no_last_wins_witness:
  "rtf_to_text plain_ucd dup_doc = Inr dup_doc
   \<and> split_numbered_refs plain_ucd dup_doc
       = Inr ([(1, asc ''a'')] @ (1, asc ''b'') # [])
   \<and> (1::int) \<notin> fst ` set ([] :: (int \<times> pystr) list)
   \<and> (\<exists>R. main plain_ucd no_service dup_doc (asc ''1'') = Inr R
          \<and> refs_found R = 2 \<and> map raw (rows_of R) = [asc ''b''])"
  using dup_text [of plain_ucd] dup_refs [of plain_ucd] dup_main [of plain_ucd]
    duplicate_ref_no_last_wins [of plain_ucd dup_doc dup_doc "[(1, asc ''a'')]" 1 "asc ''b''" "[]" no_service "asc ''1''"]
  by (simp add: asc_def)

section \<open>Character escapes out of range\<close>

text \<open>
  \<open>int\<close> reads back what \<open>str\<close> writes: the decimal digits of a number are ASCII
  digits, and their value is the number.
\<close>

definition ascii_digit :: "nat \<Rightarrow> bool" where
  "ascii_digit c = (48 \<le> c \<and> c \<le> 57)"

definition dec_val :: "pystr \<Rightarrow> nat" where
  "dec_val ds = foldl (\<lambda>a c. 10 * a + (c - 48)) 0 ds"

lemma str_nat_ascii: "list_all ascii_digit (str_nat n)"
proof (induction n rule: str_nat.induct)
  case (1 n)
  show ?case
  proof (cases "n < 10")
    case True
    then show ?thesis by (subst str_nat.simps) (simp add: ascii_digit_def)
  next
    case False
    have "n mod 10 < 10" by simp
    then have "ascii_digit (48 + n mod 10)" unfolding ascii_digit_def by linarith
    with False 1 show ?thesis by (subst str_nat.simps) simp
  qed
qed

lemma str_nat_nonempty: "str_nat n \<noteq> []"
  by (subst str_nat.simps) simp

lemma dec_val_snoc: "dec_val (ds @ [d]) = 10 * dec_val ds + (d - 48)"
  by (simp add: dec_val_def)

lemma dec_val_str_nat: "dec_val (str_nat n) = n"
proof (induction n rule: str_nat.induct)
  case (1 n)
  show ?case
  proof (cases "n < 10")
    case True
    then show ?thesis by (subst str_nat.simps) (simp add: dec_val_def)
  next
    case False
    with 1 have "dec_val (str_nat (n div 10)) = n div 10" by simp
    with False show ?thesis by (subst str_nat.simps) (simp add: dec_val_snoc)
  qed
qed

lemma digit_val_ascii: "ascii_digit c \<Longrightarrow> digit_val U c = Some (c - 48)"
  by (simp add: digit_val_def ascii_digit_def)

lemma is_digit_ascii: "ascii_digit c \<Longrightarrow> is_digit U c"
  by (simp add: is_digit_def digit_val_ascii)

lemma ascii_digit_not_space: "ascii_digit c \<Longrightarrow> \<not> int_space c"
  by (auto simp: ascii_digit_def int_space_def is_space_def)

lemma int_body_ascii:
  "list_all ascii_digit ds \<Longrightarrow>
     int_body U acc ds = Some (foldl (\<lambda>a c. 10 * a + (c - 48)) acc ds)"
proof (induction U acc ds rule: int_body.induct)
  case (1 U acc)
  show ?case by simp
next
  case (2 U acc c)
  then show ?case by (simp add: digit_val_ascii)
next
  case (3 U acc c d r)
  from "3.prems" have c: "ascii_digit c" and rest: "list_all ascii_digit (d # r)" by simp_all
  from c have ne: "c \<noteq> 95" by (auto simp: ascii_digit_def)
  from c have dv: "digit_val U c = Some (c - 48)" by (rule digit_val_ascii)
  from "3.IH"(2) [OF ne dv rest] ne dv show ?case by simp
qed

lemma int_unsigned_ascii:
  assumes "list_all ascii_digit ds" and "ds \<noteq> []"
  shows "int_unsigned U ds = Some (dec_val ds)"
proof -
  from assms have "\<not> int_space (last ds)"
    by (metis ascii_digit_not_space last_in_set list_all_iff)
  then have "dropWhile int_space (rev ds) = rev ds"
    using assms(2) by (cases "rev ds") (auto simp: last_rev [symmetric] hd_rev)
  then have r: "rev (dropWhile int_space (rev ds)) = ds" by simp
  from assms obtain c r' where ds: "ds = c # r'" by (cases ds) auto
  with assms have c: "ascii_digit c" and r': "list_all ascii_digit r'" by simp_all
  have "int_body U (c - 48) r' = Some (foldl (\<lambda>a c. 10 * a + (c - 48)) (c - 48) r')"
    using r' by (rule int_body_ascii)
  then show ?thesis
    using r ds c by (simp add: int_unsigned_def digit_val_ascii dec_val_def)
qed

lemma py_int_ascii:
  assumes "list_all ascii_digit ds" and "ds \<noteq> []"
  shows "py_int U ds = Inr (int (dec_val ds))"
proof -
  from assms obtain c r where ds: "ds = c # r" by (cases ds) auto
  with assms have c: "ascii_digit c" by simp
  then have "\<not> int_space c" "c \<noteq> 45" "c \<noteq> 43"
    by (auto simp: ascii_digit_not_space ascii_digit_def)
  then show ?thesis
    using ds int_unsigned_ascii [OF assms, of U] by (simp add: py_int_def)
qed

lemma py_int_minus_ascii:
  assumes "list_all ascii_digit ds" and "ds \<noteq> []"
  shows "py_int U (45 # ds) = Inr (- int (dec_val ds))"
proof -
  have "\<not> int_space 45" by (simp add: int_space_def is_space_def)
  then show ?thesis
    using int_unsigned_ascii [OF assms, of U] by (simp add: py_int_def)
qed

lemma py_int_str_nat: "py_int U (str_nat n) = Inr (int n)"
  using py_int_ascii [OF str_nat_ascii str_nat_nonempty, of U n] by (simp add: dec_val_str_nat)

lemma py_int_minus_str_nat: "py_int U (45 # str_nat n) = Inr (- int n)"
  using py_int_minus_ascii [OF str_nat_ascii str_nat_nonempty, of U n] by (simp add: dec_val_str_nat)

lemma py_int_str_int: "py_int U (str_int i) = Inr i"
  by (simp add: str_int_def py_int_str_nat py_int_minus_str_nat)

lemma takeWhile_digits_ascii: "list_all ascii_digit ds \<Longrightarrow> takeWhile (is_digit U) ds = ds"
  by (induction ds) (auto simp: is_digit_ascii)

lemma dropWhile_digits_ascii: "list_all ascii_digit ds \<Longrightarrow> dropWhile (is_digit U) ds = []"
  by (induction ds) (auto simp: is_digit_ascii)

lemma skip_opt_digits:
  "list_all ascii_digit ds \<Longrightarrow> ds \<noteq> [] \<Longrightarrow> skip_opt 45 ds = ds \<and> take 1 ds \<noteq> [45]"
  by (cases ds) (auto simp: skip_opt_def ascii_digit_def)

lemma uni_at_plain:
  assumes "list_all ascii_digit ds" and "ds \<noteq> []"
  shows "uni_at U ([92, 117] @ ds) = Some (ds, [])"
  using assms skip_opt_digits [OF assms]
  by (simp add: uni_at_def takeWhile_digits_ascii dropWhile_digits_ascii) (simp add: skip_opt_def)

lemma uni_at_minus:
  assumes "list_all ascii_digit ds" and "ds \<noteq> []"
  shows "uni_at U ([92, 117, 45] @ ds) = Some (45 # ds, [])"
  using assms
  by (simp add: uni_at_def takeWhile_digits_ascii dropWhile_digits_ascii skip_opt_def)

lemma sub_uni_error:
  "uni_at U s = Some (g, rest) \<Longrightarrow> uni_repl U g = Inl e \<Longrightarrow> sub_uni U s = Inl e"
  by (subst sub_uni.simps) simp

lemma escape_too_large:
  "sub_uni U ([92, 117] @ str_nat (1114112 + k)) =
     Inl (if 2147483647 < 1114112 + k then ChrOverflow else ChrRange)"
proof -
  have "uni_repl U (str_nat (1114112 + k)) =
      Inl (if 2147483647 < 1114112 + k then ChrOverflow else ChrRange)"
    by (simp add: uni_repl_def py_int_str_nat py_chr_def)
  then show ?thesis
    using uni_at_plain [OF str_nat_ascii str_nat_nonempty, of U "1114112 + k"]
    by (rule_tac sub_uni_error) auto
qed

lemma escape_too_small:
  "sub_uni U ([92, 117, 45] @ str_nat (65537 + k)) =
     Inl (if 2147483647 < k then ChrOverflow else ChrRange)"
proof -
  have "uni_repl U (45 # str_nat (65537 + k)) =
      Inl (if 2147483647 < k then ChrOverflow else ChrRange)"
    by (simp add: uni_repl_def py_int_minus_str_nat py_chr_def)
  then show ?thesis
    using uni_at_minus [OF str_nat_ascii str_nat_nonempty, of U "65537 + k"]
    by (rule_tac sub_uni_error) auto
qed

text \<open>
  C10: the conversion raises on an escape whose code is out of range. For every \<open>k\<close>,
  the text of a backslash, \<open>u\<close> and the decimal digits of 1114112 + k, and the text
  of a backslash, \<open>u\<close>, a minus and the digits of 65537 + k, make \<open>chr\<close> raise, so
  that \<open>rtf_to_text\<close> returns no text and \<open>main\<close> stops there, whatever the
  selection and the service. The codes 1114111 and -65536 next to them are converted.
\<close>

theorem rtf_to_text_raises:
  "rtf_to_text U ([92, 117] @ str_nat (1114112 + k))
     = Inl (if 2147483647 < 1114112 + k then ChrOverflow else ChrRange)
   \<and> rtf_to_text U ([92, 117, 45] @ str_nat (65537 + k))
     = Inl (if 2147483647 < k then ChrOverflow else ChrRange)
   \<and> main U svc ([92, 117] @ str_nat (1114112 + k)) select
     = Inl (if 2147483647 < 1114112 + k then ChrOverflow else ChrRange)
   \<and> main U svc ([92, 117, 45] @ str_nat (65537 + k)) select
     = Inl (if 2147483647 < k then ChrOverflow else ChrRange)
   \<and> str_nat 1114112 = asc ''1114112'' \<and> str_nat 65537 = asc ''65537''
   \<and> rtf_to_text U ([92, 117] @ asc ''1114111'') = Inr [1114111]
   \<and> rtf_to_text U ([92, 117, 45] @ asc ''65536'') = Inr [0]"
proof -
  have a: "rtf_to_text U ([92, 117] @ str_nat (1114112 + k))
     = Inl (if 2147483647 < 1114112 + k then ChrOverflow else ChrRange)"
    unfolding rtf_to_text_def escape_too_large by simp
  have b: "rtf_to_text U ([92, 117, 45] @ str_nat (65537 + k))
     = Inl (if 2147483647 < k then ChrOverflow else ChrRange)"
    unfolding rtf_to_text_def escape_too_small by simp
  have c: "str_nat 1114112 = asc ''1114112''" "str_nat 65537 = asc ''65537''"
    by (simp_all add: str_nat.simps asc_def)
  have d: "rtf_to_text U ([92, 117] @ asc ''1114111'') = Inr [1114111]"
    by (simp add: text_defs char_defs py_int_def int_unsigned_def uni_repl_def py_chr_def)
  have e: "rtf_to_text U ([92, 117, 45] @ asc ''65536'') = Inr [0]"
    by (simp add: text_defs char_defs py_int_def int_unsigned_def uni_repl_def py_chr_def)
  from a b c d e show ?thesis
    by (simp add: main_def)
qed

section \<open>The loop of the selection resolver\<close>

text \<open>
  What the loop over the parts computes. \<open>part_bounds U p\<close> is what one turn reads
  from the part \<open>p\<close>: the two results of \<open>int\<close>, in ascending order, for a part with
  a minus, the result of \<open>int\<close> twice for a part without one, and nothing when a call
  of \<open>int\<close> raises. \<open>malformed\<close> holds of a list of parts when a turn raises, and
  \<open>named\<close> is the set of all numbers between the bounds of the parts.
\<close>

definition part_bounds :: "ucd \<Rightarrow> pystr \<Rightarrow> (int \<times> int) option" where
  "part_bounds U p =
     (if 45 \<in> set p then
        (case py_int U (takeWhile (\<lambda>c. c \<noteq> 45) p) of
           Inl e \<Rightarrow> None
         | Inr a \<Rightarrow>
             (case py_int U (drop 1 (dropWhile (\<lambda>c. c \<noteq> 45) p)) of
                Inl e \<Rightarrow> None
              | Inr b \<Rightarrow> Some (min a b, max a b)))
      else (case py_int U p of Inl e \<Rightarrow> None | Inr x \<Rightarrow> Some (x, x)))"

definition malformed :: "ucd \<Rightarrow> pystr list \<Rightarrow> bool" where
  "malformed U ps = list_ex (\<lambda>p. part_bounds U p = None) ps"

definition named :: "ucd \<Rightarrow> pystr list \<Rightarrow> int set" where
  "named U ps =
     \<Union> (set (map (\<lambda>p. case part_bounds U p of None \<Rightarrow> {} | Some (lo, hi) \<Rightarrow> {lo..hi}) ps))"

lemma py_int_error: "py_int U s = Inl e \<Longrightarrow> e = InvalidLiteral"
  by (auto simp: py_int_def split: list.splits if_splits option.splits)

lemma fold_add_if_available:
  "fold (add_if_available A) xs C = C \<union> (set xs \<inter> A)"
  by (induction xs arbitrary: C) (auto simp: add_if_available_def)

lemma parse_part_bounds:
  "parse_part U A p C =
     (case part_bounds U p of
        None \<Rightarrow> Inl InvalidLiteral
      | Some (lo, hi) \<Rightarrow> Inr (C \<union> ({lo..hi} \<inter> A)))"
  by (auto simp: parse_part_def part_bounds_def fold_add_if_available add_if_available_def
      split: sum.splits dest: py_int_error)

lemma finite_named: "finite (named U ps)"
  by (auto simp: named_def split: option.splits)

lemma named_Cons:
  "named U (p # ps) =
     (case part_bounds U p of None \<Rightarrow> {} | Some (lo, hi) \<Rightarrow> {lo..hi}) \<union> named U ps"
  by (simp add: named_def)

lemma parse_parts_named:
  "parse_parts U A ps C =
     (if malformed U ps then Inl InvalidLiteral else Inr (C \<union> (named U ps \<inter> A)))"
proof (induction ps arbitrary: C)
  case Nil
  show ?case by (simp add: malformed_def named_def)
next
  case (Cons p ps)
  show ?case
  proof (cases "part_bounds U p")
    case None
    then show ?thesis by (simp add: parse_part_bounds malformed_def)
  next
    case (Some b)
    obtain lo hi where b: "b = (lo, hi)" by (cases b)
    have "parse_parts U A (p # ps) C = parse_parts U A ps (C \<union> ({lo..hi} \<inter> A))"
      using Some b by (simp add: parse_part_bounds)
    also have "\<dots> = (if malformed U ps then Inl InvalidLiteral
                        else Inr ((C \<union> ({lo..hi} \<inter> A)) \<union> (named U ps \<inter> A)))"
      by (rule Cons.IH)
    also have "\<dots> = (if malformed U (p # ps) then Inl InvalidLiteral
                        else Inr (C \<union> (named U (p # ps) \<inter> A)))"
      using Some b by (auto simp: malformed_def named_Cons)
    finally show ?thesis .
  qed
qed

lemma parse_selection_parts:
  "parse_selection U sel A =
     (if py_lower U (py_strip sel) = asc ''all'' then Inr (sorted_list_of_set A)
      else if malformed U (selection_parts (py_lower U (py_strip sel))) then Inl InvalidLiteral
      else if named U (selection_parts (py_lower U (py_strip sel))) \<inter> A = {} then Inl NoSelection
      else Inr (sorted_list_of_set (named U (selection_parts (py_lower U (py_strip sel))) \<inter> A)))"
  by (simp add: parse_selection_def parse_parts_named)

lemma sorted_list_of_set_eqI:
  "sorted xs \<Longrightarrow> distinct xs \<Longrightarrow> set xs = S \<Longrightarrow> sorted_list_of_set S = xs"
  by (rule sorted_distinct_set_unique) auto

lemma sel_list_example: "parse_selection U (asc ''1,3,5-9,12'') {1..12} = Inr [1, 3, 5, 6, 7, 8, 9, 12]"
proof -
  have l: "py_lower U (py_strip (asc ''1,3,5-9,12'')) = asc ''1,3,5-9,12''"
    by (simp add: py_lower_def py_strip_def asc_def char_defs)
  have p: "selection_parts (asc ''1,3,5-9,12'') = [asc ''1'', asc ''3'', asc ''5-9'', asc ''12'']"
    by (simp add: selection_parts_def py_strip_def asc_def char_defs)
  have b: "part_bounds U (asc ''1'') = Some (1, 1)" "part_bounds U (asc ''3'') = Some (3, 3)"
    "part_bounds U (asc ''5-9'') = Some (5, 9)" "part_bounds U (asc ''12'') = Some (12, 12)"
    by (simp_all add: part_bounds_def py_int_def int_unsigned_def asc_def char_defs)
  have "named U [asc ''1'', asc ''3'', asc ''5-9'', asc ''12''] = {1, 3, 5, 6, 7, 8, 9, 12}"
    by (simp add: named_def b set_upto [symmetric] del: set_upto) auto
  then have n: "named U [asc ''1'', asc ''3'', asc ''5-9'', asc ''12''] \<inter> {1..12}
      = set [1, 3, 5, 6, 7, 8, 9, 12]"
    by auto
  have m: "\<not> malformed U [asc ''1'', asc ''3'', asc ''5-9'', asc ''12'']"
    by (simp add: malformed_def b)
  have "sorted_list_of_set (named U [asc ''1'', asc ''3'', asc ''5-9'', asc ''12''] \<inter> {1..12})
      = [1, 3, 5, 6, 7, 8, 9, 12]"
    by (rule sorted_list_of_set_eqI) (simp_all add: n)
  then show ?thesis
    unfolding parse_selection_parts l p using m n by (simp add: asc_def)
qed

lemma sel_all_example: "parse_selection U (asc ''all'') {2, 4, 9} = Inr [2, 4, 9]"
  by (simp add: select_defs asc_def py_strip_def char_defs)

lemma sel_reversed_example: "parse_selection U (asc ''9-5'') {5, 6, 7, 8, 9} = Inr [5, 6, 7, 8, 9]"
proof -
  have l: "py_lower U (py_strip (asc ''9-5'')) = asc ''9-5''"
    by (simp add: py_lower_def py_strip_def asc_def char_defs)
  have p: "selection_parts (asc ''9-5'') = [asc ''9-5'']"
    by (simp add: selection_parts_def py_strip_def asc_def char_defs)
  have b: "part_bounds U (asc ''9-5'') = Some (5, 9)"
    by (simp_all add: part_bounds_def py_int_def int_unsigned_def asc_def char_defs)
  have "named U [asc ''9-5''] = {5, 6, 7, 8, 9}"
    by (simp add: named_def b set_upto [symmetric] del: set_upto)
  then have n: "named U [asc ''9-5''] \<inter> {5, 6, 7, 8, 9} = set [5, 6, 7, 8, 9]"
    by auto
  have m: "\<not> malformed U [asc ''9-5'']"
    by (simp add: malformed_def b)
  have "sorted_list_of_set (named U [asc ''9-5''] \<inter> {5, 6, 7, 8, 9}) = [5, 6, 7, 8, 9]"
    by (rule sorted_list_of_set_eqI) (simp_all add: n)
  then show ?thesis
    unfolding parse_selection_parts l p using m n by (simp add: asc_def)
qed

lemma sel_unavailable_example: "parse_selection U (asc ''99'') {1, 2, 3} = Inl NoSelection"
  by (simp add: select_defs py_int_def int_unsigned_def asc_def py_strip_def char_defs)

lemma sel_malformed_example: "parse_selection U (asc ''1,x'') {1} = Inl InvalidLiteral"
  by (simp add: select_defs py_int_def int_unsigned_def asc_def py_strip_def char_defs)

lemma py_strip_id: "s \<noteq> [] \<Longrightarrow> \<not> is_space (hd s) \<Longrightarrow> \<not> is_space (last s) \<Longrightarrow> py_strip s = s"
proof -
  assume ne: "s \<noteq> []" and h: "\<not> is_space (hd s)" and l: "\<not> is_space (last s)"
  from ne h have a: "dropWhile is_space s = s" by (cases s) auto
  from ne l have "dropWhile is_space (rev s) = rev s"
    by (cases "rev s") (auto simp: hd_rev [symmetric])
  with a show ?thesis by (simp add: py_strip_def)
qed

lemma split_char_none: "d \<notin> set s \<Longrightarrow> split_char d s = [s]"
  by (induction s) auto

definition range_char :: "nat \<Rightarrow> bool" where
  "range_char c = (ascii_digit c \<or> c = 45)"

lemma range_text:
  assumes "list_all range_char s" and "s \<noteq> []"
  shows "py_lower U (py_strip s) = s" and "selection_parts s = [s]" and "s \<noteq> asc ''all''"
proof -
  have sp: "\<And>c. range_char c \<Longrightarrow> \<not> is_space c"
    by (auto simp: range_char_def ascii_digit_def is_space_def)
  from assms have "range_char (hd s)" "range_char (last s)"
    by (simp_all add: list_all_iff)
  then have st: "py_strip s = s"
    using assms(2) by (intro py_strip_id) (auto dest: sp)
  have "list_all (\<lambda>c. c < 128) s"
    using assms(1) by (auto simp: list_all_iff range_char_def ascii_digit_def)
  moreover have "map (\<lambda>c. if 65 \<le> c \<and> c \<le> 90 then c + 32 else c) s = s"
    using assms(1) by (induction s) (auto simp: range_char_def ascii_digit_def)
  ultimately show "py_lower U (py_strip s) = s"
    by (simp add: st py_lower_def)
  have "44 \<notin> set s"
    using assms(1) by (auto simp: list_all_iff range_char_def ascii_digit_def)
  then show "selection_parts s = [s]"
    using assms(2) by (simp add: selection_parts_def split_char_none st)
  show "s \<noteq> asc ''all''"
    using assms(1) by (auto simp: asc_def range_char_def ascii_digit_def)
qed

lemma str_nat_no_minus: "45 \<notin> set (str_nat n)"
  using str_nat_ascii [of n] by (auto simp: list_all_iff ascii_digit_def)

lemma before_minus: "45 \<notin> set a \<Longrightarrow> takeWhile (\<lambda>c. c \<noteq> 45) (a @ 45 # b) = a"
  by (induction a) auto

lemma from_minus: "45 \<notin> set a \<Longrightarrow> dropWhile (\<lambda>c. c \<noteq> 45) (a @ 45 # b) = 45 # b"
  by (induction a) auto

lemma part_bounds_swap:
  "45 \<notin> set a \<Longrightarrow> 45 \<notin> set b \<Longrightarrow> part_bounds U (a @ 45 # b) = part_bounds U (b @ 45 # a)"
  by (auto simp: part_bounds_def before_minus from_minus min.commute max.commute split: sum.splits)

lemma part_bounds_number: "part_bounds U (str_nat n) = Some (int n, int n)"
  by (simp add: part_bounds_def str_nat_no_minus py_int_str_nat)

lemma part_bounds_range:
  "part_bounds U (str_nat m @ 45 # str_nat n) = Some (min (int m) (int n), max (int m) (int n))"
  by (simp add: part_bounds_def before_minus from_minus str_nat_no_minus py_int_str_nat)

lemma parse_selection_range:
  "parse_selection U (str_nat m @ 45 # str_nat n) A =
     (if {min (int m) (int n)..max (int m) (int n)} \<inter> A = {} then Inl NoSelection
      else Inr (sorted_list_of_set ({min (int m) (int n)..max (int m) (int n)} \<inter> A)))"
proof -
  have "list_all range_char (str_nat m @ 45 # str_nat n)"
    using str_nat_ascii [of m] str_nat_ascii [of n] by (auto simp: list_all_iff range_char_def)
  from range_text [OF this] show ?thesis
    by (simp add: parse_selection_parts malformed_def named_def part_bounds_range)
qed

lemma parse_selection_sorted:
  assumes "parse_selection U sel A = Inr xs" and "py_lower U (py_strip sel) \<noteq> asc ''all''"
  shows "sorted xs \<and> distinct xs
         \<and> set xs = named U (selection_parts (py_lower U (py_strip sel))) \<inter> A"
proof -
  have "finite (named U (selection_parts (py_lower U (py_strip sel))) \<inter> A)"
    using finite_named by simp
  with assms show ?thesis
    by (auto simp: parse_selection_parts split: if_splits)
qed

lemma dom_build_ref_map: "fst ` set (build_ref_map refs) = fst ` set refs"
proof -
  have "dom (map_of (build_ref_map refs)) = dom (map_of (rev refs))"
    by (simp add: map_of_build_ref_map)
  then show ?thesis
    by (simp add: dom_map_of_conv_image_fst)
qed

lemma parse_selection_nonempty:
  assumes "parse_selection U sel A = Inr xs" and "finite A" and "A \<noteq> {}"
  shows "xs \<noteq> []"
proof (cases "py_lower U (py_strip sel) = asc ''all''")
  case True
  with assms show ?thesis by (auto simp: parse_selection_parts)
next
  case False
  have "finite (named U (selection_parts (py_lower U (py_strip sel))) \<inter> A)"
    using finite_named by simp
  with assms False show ?thesis
    by (auto simp: parse_selection_parts split: if_splits)
qed

lemma main_chosen_nonempty: "main U svc rtf select = Inr R \<Longrightarrow> chosen_ref_nos R \<noteq> []"
proof -
  assume "main U svc rtf select = Inr R"
  from main_run_chosen [OF this] obtain refs chosen where ne: "refs \<noteq> []"
    and ps: "parse_selection U select (set (map fst (build_ref_map refs))) = Inr chosen"
    and rc: "run_chosen U svc refs chosen = Inr R"
    by blast
  have "set (map fst (build_ref_map refs)) \<noteq> {}"
    using ne dom_build_ref_map [of refs] by simp
  with ps have "chosen \<noteq> []"
    by (intro parse_selection_nonempty [OF ps]) simp_all
  with run_chosen_fields [OF rc] show ?thesis by simp
qed

section \<open>Properties of the year extractor\<close>

text \<open>
  What the claim says, in its own words. \<open>year_token U s i\<close>: a four-digit token
  that begins with 19 or 20 stands at position \<open>i\<close> of \<open>s\<close>, that is, four
  characters \<open>19dd\<close> or \<open>20dd\<close> with digits \<open>d\<close>, no word character before them and
  none after them. \<open>year_tokens\<close> are all these tokens of a text, from left to right,
  and \<open>token_value\<close> is the number that the digits of a token write.
\<close>

definition year_token :: "ucd \<Rightarrow> pystr \<Rightarrow> nat \<Rightarrow> bool" where
  "year_token U s i =
     (i + 4 \<le> length s
      \<and> ((s ! i = 49 \<and> s ! (i + 1) = 57) \<or> (s ! i = 50 \<and> s ! (i + 1) = 48))
      \<and> is_digit U (s ! (i + 2)) \<and> is_digit U (s ! (i + 3))
      \<and> (i = 0 \<or> \<not> is_word U (s ! (i - 1)))
      \<and> (i + 4 = length s \<or> \<not> is_word U (s ! (i + 4))))"

definition year_tokens :: "ucd \<Rightarrow> pystr \<Rightarrow> pystr list" where
  "year_tokens U s = map (\<lambda>i. take 4 (drop i s)) (filter (year_token U s) [0..<length s])"

definition digit_of :: "ucd \<Rightarrow> nat \<Rightarrow> nat" where
  "digit_of U c = (case digit_val U c of None \<Rightarrow> 0 | Some v \<Rightarrow> v)"

definition token_value :: "ucd \<Rightarrow> pystr \<Rightarrow> int" where
  "token_value U t = int (foldl (\<lambda>a c. 10 * a + digit_of U c) 0 t)"

text \<open>
  \<open>year_scan\<close> tests the pattern at every position, also behind a match: an
  intermediate step between the scan of \<open>finditer\<close> and the positions of the tokens.
\<close>

fun year_scan :: "ucd \<Rightarrow> nat option \<Rightarrow> pystr \<Rightarrow> pystr list" where
  "year_scan U prev [] = []"
| "year_scan U prev (c # r) =
     (if year_at U prev (c # r) then [take 4 (c # r)] else []) @ year_scan U (Some c) r"

lemma year_at_short: "length s < 4 \<Longrightarrow> \<not> year_at U prev s"
  by (auto simp: year_at_def split: list.splits)

lemma year_scan_short: "length s < 4 \<Longrightarrow> year_scan U prev s = []"
  by (induction s arbitrary: prev) (auto simp: year_at_short)

lemma year_at_after_word: "is_word U p \<Longrightarrow> \<not> year_at U (Some p) s"
  by (auto simp: year_at_def split: list.splits)

lemma is_word_ascii_digit: "48 \<le> c \<Longrightarrow> c \<le> 57 \<Longrightarrow> is_word U c"
  by (simp add: is_word_def is_digit_def digit_val_def)

lemma year_iter_scan: "year_iter U prev s = year_scan U prev s"
proof (induction U prev s rule: year_iter.induct)
  case (1 U prev a b c d r)
  show ?case
  proof (cases "year_at U prev (a # b # c # d # r)")
    case True
    then have "a = 49 \<or> a = 50" "b = 57 \<or> b = 48" "is_digit U c"
      by (auto simp: year_at_def)
    then have wa: "is_word U a" and wb: "is_word U b" and wc: "is_word U c"
      by (auto simp: is_word_def is_digit_def digit_val_def)
    have "year_scan U prev (a # b # c # d # r) = [a, b, c, d] # year_scan U (Some d) r"
      using True wa wb wc by (simp add: year_at_after_word)
    with True 1 show ?thesis by simp
  next
    case False
    with 1 show ?thesis by simp
  qed
qed (simp_all add: year_at_short)

lemma year_scan_positions:
  "year_scan U prev s =
     map (\<lambda>i. take 4 (drop i s))
       (filter (\<lambda>i. year_at U (if i = 0 then prev else Some (s ! (i - 1))) (drop i s))
          [0..<length s])"
proof (induction s arbitrary: prev)
  case Nil
  show ?case by simp
next
  case (Cons c r)
  have up: "[0..<length (c # r)] = 0 # map Suc [0..<length r]"
    by (simp add: upt_conv_Cons map_Suc_upt del: upt_Suc)
  have sh: "filter (\<lambda>i. year_at U (if i = 0 then prev else Some ((c # r) ! (i - 1))) (drop i (c # r)))
              (map Suc [0..<length r])
          = map Suc (filter (\<lambda>i. year_at U (if i = 0 then Some c else Some (r ! (i - 1))) (drop i r))
              [0..<length r])"
    unfolding filter_map
    by (rule arg_cong [where f = "map Suc"], rule filter_cong) (auto simp: nth_Cons split: nat.splits)
  show ?case
    unfolding up
    by (simp add: Cons.IH [of "Some c"] sh del: upt_Suc)
qed

lemma drop_four:
  "i + 4 \<le> length s \<Longrightarrow>
     drop i s = s ! i # s ! (i + 1) # s ! (i + 2) # s ! (i + 3) # drop (i + 4) s"
proof -
  assume h: "i + 4 \<le> length s"
  have "drop i s = s ! i # drop (Suc i) s"
    using h by (intro Cons_nth_drop_Suc [symmetric]) simp
  also have "drop (Suc i) s = s ! (i + 1) # drop (Suc (Suc i)) s"
    using h Cons_nth_drop_Suc [of "Suc i" s] by simp
  also have "drop (Suc (Suc i)) s = s ! (i + 2) # drop (Suc (Suc (Suc i))) s"
    using h Cons_nth_drop_Suc [of "Suc (Suc i)" s] by simp
  also have "drop (Suc (Suc (Suc i))) s = s ! (i + 3) # drop (i + 4) s"
    using h Cons_nth_drop_Suc [of "Suc (Suc (Suc i))" s] by (simp add: numeral_eq_Suc)
  finally show ?thesis .
qed

lemma year_at_token:
  "i < length s \<Longrightarrow>
     year_at U (if i = 0 then None else Some (s ! (i - 1))) (drop i s) \<longleftrightarrow> year_token U s i"
proof -
  assume i: "i < length s"
  show ?thesis
  proof (cases "i + 4 \<le> length s")
    case False
    then have "length (drop i s) < 4" by simp
    then show ?thesis using False by (simp add: year_at_short year_token_def)
  next
    case True
    have nx: "(case drop (i + 4) s of [] \<Rightarrow> True | e # x \<Rightarrow> \<not> is_word U e)
        \<longleftrightarrow> (i + 4 = length s \<or> \<not> is_word U (s ! (i + 4)))"
    proof (cases "i + 4 = length s")
      case True
      then show ?thesis by simp
    next
      case False
      with True have "i + 4 < length s" by simp
      then have "drop (i + 4) s = s ! (i + 4) # drop (Suc (i + 4)) s"
        by (intro Cons_nth_drop_Suc [symmetric])
      with False show ?thesis by simp
    qed
    show ?thesis
      unfolding drop_four [OF True] year_at_def year_token_def
      using True nx by (cases "i = 0") auto
  qed
qed

lemma year_iter_tokens: "year_iter U None s = year_tokens U s"
proof -
  have "filter (\<lambda>i. year_at U (if i = 0 then None else Some (s ! (i - 1))) (drop i s)) [0..<length s]
      = filter (year_token U s) [0..<length s]"
    by (rule filter_cong) (auto simp: year_at_token)
  then show ?thesis
    by (simp add: year_iter_scan year_scan_positions year_tokens_def)
qed

lemma py_int_year:
  assumes "(a = 49 \<and> b = 57) \<or> (a = 50 \<and> b = 48)" and "is_digit U c" and "is_digit U d"
  shows "py_int U [a, b, c, d] = Inr (token_value U [a, b, c, d])"
proof -
  from assms(2) obtain vc where vc: "digit_val U c = Some vc" by (auto simp: is_digit_def)
  from assms(3) obtain vd where vd: "digit_val U d = Some vd" by (auto simp: is_digit_def)
  from vc have c95: "c \<noteq> 95" by (auto simp: digit_val_def split: if_splits)
  from vd have sd: "\<not> int_space d"
    by (auto simp: digit_val_def int_space_def split: if_splits)
  from assms(1) have sa: "\<not> int_space a" "a \<noteq> 45" "a \<noteq> 43" "b \<noteq> 95"
    and da: "digit_val U a = Some (a - 48)" and db: "digit_val U b = Some (b - 48)"
    by (auto simp: int_space_def is_space_def digit_val_def)
  have "int_unsigned U [a, b, c, d] = Some (10 * (10 * (10 * (a - 48) + (b - 48)) + vc) + vd)"
    using sd sa c95 da db vc vd by (simp add: int_unsigned_def)
  then show ?thesis
    using sa da db vc vd by (simp add: py_int_def token_value_def digit_of_def)
qed

lemma year_tokens_member:
  "t \<in> set (year_tokens U s) \<Longrightarrow>
     \<exists>a b c d. t = [a, b, c, d] \<and> ((a = 49 \<and> b = 57) \<or> (a = 50 \<and> b = 48))
       \<and> is_digit U c \<and> is_digit U d"
proof -
  assume "t \<in> set (year_tokens U s)"
  then obtain i where i: "year_token U s i" and t: "t = take 4 (drop i s)"
    by (auto simp: year_tokens_def)
  from i have "i + 4 \<le> length s" by (simp add: year_token_def)
  from drop_four [OF this] t i show ?thesis
    by (auto simp: year_token_def)
qed

lemma map_err_all: "(\<And>x. x \<in> set xs \<Longrightarrow> f x = Inr (g x)) \<Longrightarrow> map_err f xs = Inr (map g xs)"
  by (induction xs) auto

lemma map_err_year_tokens:
  "map_err (py_int U) (year_tokens U s) = Inr (map (token_value U) (year_tokens U s))"
proof (rule map_err_all)
  fix t assume "t \<in> set (year_tokens U s)"
  from year_tokens_member [OF this] show "py_int U t = Inr (token_value U t)"
    by (auto simp: py_int_year)
qed

lemma extract_pub_year_tokens:
  "extract_pub_year U s =
     Inr (if year_tokens U (before_first (asc ''Accessed:'') s) = [] then None
          else Some (token_value U (last (year_tokens U (before_first (asc ''Accessed:'') s)))))"
  by (simp add: extract_pub_year_def year_iter_tokens map_err_year_tokens last_map)

lemma token_value_ge:
  assumes "(a = 49 \<and> b = 57) \<or> (a = 50 \<and> b = 48)"
  shows "1900 \<le> token_value U [a, b, c, d]"
proof -
  from assms have "19 \<le> 10 * digit_of U a + digit_of U b"
    by (auto simp: digit_of_def digit_val_def)
  then have "190 \<le> 10 * (10 * digit_of U a + digit_of U b) + digit_of U c"
    by (simp add: trans_le_add1)
  then have "1900 \<le> 10 * (10 * (10 * digit_of U a + digit_of U b) + digit_of U c) + digit_of U d"
    by (simp add: trans_le_add1)
  then show ?thesis
    by (simp add: token_value_def)
qed

lemma extract_pub_year_ge: "extract_pub_year U s = Inr (Some y) \<Longrightarrow> 1900 \<le> y"
proof -
  assume h: "extract_pub_year U s = Inr (Some y)"
  define ts where "ts = year_tokens U (before_first (asc ''Accessed:'') s)"
  from h have ne: "ts \<noteq> []" and y: "y = token_value U (last ts)"
    by (auto simp: extract_pub_year_tokens ts_def split: if_splits)
  from ne have "last ts \<in> set ts" by simp
  from year_tokens_member [OF this [unfolded ts_def]] y show ?thesis
    by (auto simp: token_value_ge ts_def)
qed

lemma before_first_cut:
  "\<exists>rest. s = before_first sep s @ rest \<and> (rest = [] \<or> startswith rest sep)
     \<and> (\<forall>i<length (before_first sep s). \<not> startswith (drop i s) sep)"
proof (induction s)
  case Nil
  show ?case by simp
next
  case (Cons c r)
  show ?case
  proof (cases "startswith (c # r) sep")
    case True
    then show ?thesis by simp
  next
    case False
    from Cons obtain rest where r: "r = before_first sep r @ rest"
      and e: "rest = [] \<or> startswith rest sep"
      and n: "\<forall>i<length (before_first sep r). \<not> startswith (drop i r) sep" by blast
    have "\<forall>i<length (before_first sep (c # r)). \<not> startswith (drop i (c # r)) sep"
    proof (intro allI impI)
      fix i assume "i < length (before_first sep (c # r))"
      then show "\<not> startswith (drop i (c # r)) sep"
        using False n by (cases i) auto
    qed
    moreover have "c # r = before_first sep (c # r) @ rest"
      using False r by simp
    ultimately show ?thesis using e by blast
  qed
qed

definition accessed_doc :: pystr where
  "accessed_doc = asc ''... 2019 ... Accessed: 2024-01-01''"

lemma accessed_cut: "before_first (asc ''Accessed:'') accessed_doc = asc ''... 2019 ... ''"
  by (simp add: accessed_doc_def asc_def startswith_def)

lemma accessed_tokens: "year_tokens U (asc ''... 2019 ... '') = [asc ''2019'']"
  unfolding year_iter_tokens [symmetric]
  by (simp add: asc_def year_at_def char_defs)

lemma accessed_year: "extract_pub_year U accessed_doc = Inr (Some 2019)"
  by (simp add: extract_pub_year_tokens accessed_cut accessed_tokens)
     (simp add: token_value_def digit_of_def digit_val_def asc_def)

text \<open>
  C7: the guessed year is the value of the last four-digit token beginning with 19 or
  20 in the text before the first \<open>Accessed:\<close>, and there is none when that text has
  no such token. The text before the marker is a prefix of the raw text that is
  followed by the marker or by nothing, and no marker begins inside it. On the text of
  the claim the guessed year is 2019.
\<close>

theorem extract_pub_year_last_token:
  "extract_pub_year U s =
     Inr (if year_tokens U (before_first (asc ''Accessed:'') s) = [] then None
          else Some (token_value U (last (year_tokens U (before_first (asc ''Accessed:'') s)))))
   \<and> (\<exists>rest. s = before_first (asc ''Accessed:'') s @ rest
         \<and> (rest = [] \<or> startswith rest (asc ''Accessed:''))
         \<and> (\<forall>i<length (before_first (asc ''Accessed:'') s).
               \<not> startswith (drop i s) (asc ''Accessed:'')))
   \<and> token_value U (asc ''2019'') = 2019
   \<and> extract_pub_year U (asc ''... 2019 ... Accessed: 2024-01-01'') = Inr (Some 2019)"
proof -
  have "token_value U (asc ''2019'') = 2019"
    by (simp add: token_value_def digit_of_def digit_val_def asc_def)
  then show ?thesis
    using extract_pub_year_tokens [of U s] before_first_cut [of s "asc ''Accessed:''"]
      accessed_year [of U]
    by (simp add: accessed_doc_def)
qed

text \<open>C7 on the text of the claim: the cut, its only token and the year.\<close>

theorem extract_pub_year_last_token_witness:
  "before_first (asc ''Accessed:'') accessed_doc = asc ''... 2019 ... ''
   \<and> year_tokens plain_ucd (asc ''... 2019 ... '') = [asc ''2019'']
   \<and> extract_pub_year plain_ucd accessed_doc = Inr (Some 2019)"
  using extract_pub_year_last_token [of plain_ucd accessed_doc] accessed_cut
    accessed_tokens [of plain_ucd]
  by (simp add: token_value_def digit_of_def digit_val_def asc_def)

section \<open>Properties of the consistency checker\<close>

lemma check_edges_member:
  "(a, b, ya, yb) \<in> set (check_edges d es) \<longleftrightarrow>
     (a, b) \<in> set es \<and> get_year d a = Some ya \<and> get_year d b = Some yb
     \<and> ya \<noteq> 0 \<and> yb \<noteq> 0 \<and> ya < yb"
proof (induction es)
  case Nil
  show ?case by simp
next
  case (Cons e es)
  obtain a' b' where e: "e = (a', b')" by (cases e)
  show ?case
    unfolding e using Cons.IH
    by (cases "get_year d a'"; cases "get_year d b'") auto
qed

lemma map_of_fold_update_inv:
  assumes "\<And>n. map_of d n \<noteq> Some bad" and "\<And>x. x \<in> set xs \<Longrightarrow> val x \<noteq> bad"
  shows "map_of (fold (\<lambda>x d. AList.update (key x) (val x) d) xs d) n \<noteq> Some bad"
  using assms
proof (induction xs arbitrary: d)
  case Nil
  then show ?case by simp
next
  case (Cons x xs)
  have "\<And>n. map_of (AList.update (key x) (val x) d) n \<noteq> Some bad"
    using Cons.prems by (simp add: update_conv')
  from Cons.IH [OF this] Cons.prems(2) show ?case by simp
qed

lemma map_of_fold_update_if_inv:
  assumes "\<And>n. map_of d n \<noteq> Some bad" and "\<And>x. x \<in> set xs \<Longrightarrow> ok x \<Longrightarrow> val x \<noteq> bad"
  shows "map_of (fold (\<lambda>x d. if ok x then AList.update (key x) (val x) d else d) xs d) n \<noteq> Some bad"
  using assms
proof (induction xs arbitrary: d)
  case Nil
  then show ?case by simp
next
  case (Cons x xs)
  have "\<And>n. map_of (if ok x then AList.update (key x) (val x) d else d) n \<noteq> Some bad"
    using Cons.prems by (simp add: update_conv')
  from Cons.IH [OF this] Cons.prems(2) show ?case by simp
qed

lemma year_by_ref_no_zero:
  assumes "\<And>r. r \<in> set rows \<Longrightarrow> pub_year_guess r \<noteq> Some 0"
  shows "get_year (build_year_by_ref rows resolved) n \<noteq> Some 0"
proof -
  have a: "\<And>n. map_of (fold (\<lambda>r d. AList.update (ref_no r) (pub_year_guess r) d) rows []) n
      \<noteq> Some (Some 0)"
    using assms by (intro map_of_fold_update_inv) simp_all
  have f: "(\<lambda>(n, w) d. if truthy_year (w_year w) then AList.update n (w_year w) d else d)
      = (\<lambda>x d. if truthy_year (w_year (snd x)) then AList.update (fst x) (w_year (snd x)) d else d)"
    by (auto simp: fun_eq_iff)
  have "map_of (build_year_by_ref rows resolved) n \<noteq> Some (Some 0)"
    unfolding build_year_by_ref_def f
    using a by (intro map_of_fold_update_if_inv) (simp_all add: truthy_year_def)
  then show ?thesis
    by (auto simp: get_year_def split: option.splits)
qed

lemma rows_guess_no_zero:
  assumes "map_err (make_row U m) chosen = Inr rows" and "r \<in> set rows"
  shows "pub_year_guess r \<noteq> Some 0"
proof -
  from map_err_member [OF assms] obtain k where "make_row U m k = Inr r" by blast
  from make_row_fields [OF this] have "extract_pub_year U (raw r) = Inr (pub_year_guess r)"
    by simp
  then show ?thesis
    using extract_pub_year_ge [of U "raw r" 0] by auto
qed

lemma run_chosen_total:
  "map_err (make_row U (build_ref_map refs)) chosen = Inr rows
   \<Longrightarrow> build_graph (fst (resolve_loop svc rows ([], []))) rows = Inr (G, er)
   \<Longrightarrow> \<exists>R. run_chosen U svc refs chosen = Inr R \<and> graph R = G \<and> edges_rows_of R = er
         \<and> violations R
            = check_edges (build_year_by_ref rows (fst (resolve_loop svc rows ([], [])))) er"
  by (simp add: run_chosen_def Let_def)

text \<open>
  A run with one citation inside the selection and one that leaves it: reference 1
  resolves to \<open>W1\<close>, which cites \<open>W2\<close> and \<open>W9\<close>, and reference 2 resolves to
  \<open>W2\<close>; the service gives no years, so the guessed years 2010 and 2015 stay.
\<close>

definition cite_service :: service where
  "cite_service =
     \<lparr>by_doi = (\<lambda>r. None),
      by_search = (\<lambda>r. if ref_no r = 1
         then Some \<lparr>w_id = asc ''W1'', w_title = [], w_year = None, w_doi = [],
                     referenced_works = [asc ''W2'', asc ''W9'']\<rparr>
         else Some \<lparr>w_id = asc ''W2'', w_title = [], w_year = None, w_doi = [],
                     referenced_works = []\<rparr>)\<rparr>"

definition cite_refs :: "(int \<times> pystr) list" where
  "cite_refs = [(1, asc ''a 2010''), (2, asc ''b 2015'')]"

definition cite_rows :: "row list" where
  "cite_rows =
     [\<lparr>ref_no = 1, rtf_order = 1, raw = asc ''a 2010'', doi = None, title = asc ''a 2010'',
        pub_year_guess = Some 2010\<rparr>,
      \<lparr>ref_no = 2, rtf_order = 2, raw = asc ''b 2015'', doi = None, title = asc ''b 2015'',
        pub_year_guess = Some 2015\<rparr>]"

definition cite_resolved :: "(int \<times> OAWork) list" where
  "cite_resolved =
     [(1, \<lparr>w_id = asc ''W1'', w_title = [], w_year = None, w_doi = [],
            referenced_works = [asc ''W2'', asc ''W9'']\<rparr>),
      (2, \<lparr>w_id = asc ''W2'', w_title = [], w_year = None, w_doi = [],
            referenced_works = []\<rparr>)]"

definition cite_graph :: digraph where
  "cite_graph =
     \<lparr>nodes = [(asc ''W1'', Some \<lparr>a_ref_no = 1, a_rtf_order = 1, a_pub_year = Some 2010,
                                  a_doi = [], a_title = asc ''a 2010''\<rparr>),
               (asc ''W2'', Some \<lparr>a_ref_no = 2, a_rtf_order = 2, a_pub_year = Some 2015,
                                  a_doi = [], a_title = asc ''b 2015''\<rparr>)],
      edges = [(asc ''W1'', asc ''W2'')]\<rparr>"

lemma cite_rows_made:
  "map_err (make_row U (build_ref_map cite_refs)) [1, 2] = Inr cite_rows"
  by (simp add: cite_refs_def cite_rows_def build_ref_map_def make_row_def lookup_def
      field_defs seg_defs asc_def py_strip_def startswith_def char_defs)

lemma cite_resolve: "resolve_loop cite_service cite_rows ([], []) = (cite_resolved, [])"
  by (simp add: cite_service_def cite_rows_def cite_resolved_def fetch_def asc_def)

lemma cite_build: "build_graph cite_resolved cite_rows = Inr (cite_graph, [(1, 2)])"
  by (simp add: cite_rows_def cite_resolved_def cite_graph_def graph_defs asc_def)

lemma cite_years:
  "build_year_by_ref cite_rows cite_resolved = [(1, Some 2010), (2, Some 2015)]"
  by (simp add: cite_rows_def cite_resolved_def build_year_by_ref_def truthy_year_def)

definition cite_result :: run where
  "cite_result =
     \<lparr>refs_found = 2, chosen_ref_nos = [1, 2], rows_of = cite_rows,
      resolved_of = cite_resolved, unresolved_of = [], graph = cite_graph,
      edges_rows_of = [(1, 2)], violations = [(1, 2, 2010, 2015)]\<rparr>"

lemma cite_run: "run_chosen U cite_service cite_refs [1, 2] = Inr cite_result"
  by (simp only: run_chosen_def cite_rows_made sum.case Let_def cite_resolve fst_conv snd_conv
        cite_build prod.case cite_years)
     (simp add: cite_refs_def get_year_def cite_result_def)

definition years_10_15 :: "(int \<times> int option) list" where
  "years_10_15 = [(1, Some 2010), (2, Some 2015)]"

definition years_20_15 :: "(int \<times> int option) list" where
  "years_20_15 = [(1, Some 2020), (2, Some 2015)]"

lemma check_examples:
  "check_edges years_10_15 [(1, 2)] = [(1, 2, 2010, 2015)]" "check_edges years_20_15 [(1, 2)] = []"
  by (simp_all add: years_10_15_def years_20_15_def get_year_def)

section \<open>Properties of the graph builder\<close>

text \<open>
  The selected numbers are those of the rows, and the node set that is constructed
  from them is the set of their node ids.
\<close>

definition selected :: "row list \<Rightarrow> int set" where
  "selected rows = ref_no ` set rows"

definition node_set :: "(int \<times> OAWork) list \<Rightarrow> row list \<Rightarrow> pystr set" where
  "node_set resolved rows = node_id resolved ` selected rows"

lemma map_of_fold_update_key:
  "map_of (fold (\<lambda>x d. AList.update (key x) (f (key x)) d) xs d) k =
     (if k \<in> key ` set xs then Some (f k) else map_of d k)"
  by (induction xs arbitrary: d) (auto simp: update_conv')

lemma distinct_fold_update:
  "distinct (map fst d) \<Longrightarrow> distinct (map fst (fold (\<lambda>x d. AList.update (key x) (val x) d) xs d))"
  by (induction xs arbitrary: d) (auto simp: distinct_update)

lemma map_of_node_id_by_ref:
  "map_of (build_node_id_by_ref resolved rows) n =
     (if n \<in> selected rows then Some (node_id resolved n) else None)"
  unfolding build_node_id_by_ref_def selected_def
  using map_of_fold_update_key [of ref_no "node_id resolved" rows "[]" n] by simp

lemma distinct_node_id_by_ref: "distinct (map fst (build_node_id_by_ref resolved rows))"
  unfolding build_node_id_by_ref_def by (rule distinct_fold_update) simp

lemma set_node_id_by_ref:
  "set (build_node_id_by_ref resolved rows) = (\<lambda>n. (n, node_id resolved n)) ` selected rows"
proof -
  have "\<And>n v. (n, v) \<in> set (build_node_id_by_ref resolved rows)
      \<longleftrightarrow> map_of (build_node_id_by_ref resolved rows) n = Some v"
    by (simp add: distinct_node_id_by_ref)
  then have "\<And>n v. (n, v) \<in> set (build_node_id_by_ref resolved rows)
      \<longleftrightarrow> n \<in> selected rows \<and> v = node_id resolved n"
    by (auto simp: map_of_node_id_by_ref)
  then show ?thesis by auto
qed

lemma dom_fold_swap:
  "fst ` set (fold (\<lambda>(ref, nid) d. AList.update nid ref d) xs d) = snd ` set xs \<union> fst ` set d"
proof (induction xs arbitrary: d)
  case Nil
  show ?case by simp
next
  case (Cons x xs)
  obtain r n where x: "x = (r, n)" by (cases x)
  have "fst ` set (fold (\<lambda>(ref, nid) d. AList.update nid ref d) (x # xs) d)
      = snd ` set xs \<union> fst ` set (AList.update n r d)"
    using Cons.IH [of "AList.update n r d"] by (simp add: x)
  also have "fst ` set (AList.update n r d) = insert n (fst ` set d)"
    by (simp add: dom_update)
  finally show ?case by (simp add: x)
qed

lemma map_of_fold_swap:
  "map_of (fold (\<lambda>(ref, nid) d. AList.update nid ref d) xs d) nid = Some ref
     \<Longrightarrow> (ref, nid) \<in> set xs \<or> map_of d nid = Some ref"
proof (induction xs arbitrary: d)
  case Nil
  then show ?case by simp
next
  case (Cons x xs)
  obtain r n where x: "x = (r, n)" by (cases x)
  from Cons.prems have "map_of (fold (\<lambda>(ref, nid) d. AList.update nid ref d) xs
      (AList.update n r d)) nid = Some ref"
    by (simp add: x)
  from Cons.IH [OF this] show ?case
    by (auto simp: x update_conv' split: if_splits)
qed

lemma keys_ref_by_node_id:
  "fst ` set (build_ref_by_node_id (build_node_id_by_ref resolved rows)) = node_set resolved rows"
  by (simp add: build_ref_by_node_id_def dom_fold_swap set_node_id_by_ref node_set_def image_image)

lemma lookup_ref_by_node_id:
  assumes "nid \<in> node_set resolved rows"
  shows "\<exists>ref. lookup (build_ref_by_node_id (build_node_id_by_ref resolved rows)) nid = Inr ref
           \<and> ref \<in> selected rows \<and> node_id resolved ref = nid"
proof -
  let ?d = "build_ref_by_node_id (build_node_id_by_ref resolved rows)"
  from assms have "nid \<in> fst ` set ?d" by (simp add: keys_ref_by_node_id)
  then obtain ref where m: "map_of ?d nid = Some ref"
    by (metis domD dom_map_of_conv_image_fst)
  then have "(ref, nid) \<in> set (build_node_id_by_ref resolved rows)"
    using map_of_fold_swap [of "build_node_id_by_ref resolved rows" "[]" nid ref]
    by (simp add: build_ref_by_node_id_def)
  then have "ref \<in> selected rows \<and> node_id resolved ref = nid"
    by (auto simp: set_node_id_by_ref)
  with m show ?thesis by (simp add: lookup_def)
qed

lemma lookup_node_id_by_ref:
  "n \<in> selected rows \<Longrightarrow> lookup (build_node_id_by_ref resolved rows) n = Inr (node_id resolved n)"
  by (simp add: lookup_def map_of_node_id_by_ref)

lemma add_nodes_result:
  assumes "set rs \<subseteq> set rows"
  shows "\<exists>G'. add_nodes resolved (build_node_id_by_ref resolved rows) rs G = Inr G'
           \<and> fst ` set (nodes G') = fst ` set (nodes G) \<union> node_set resolved rs
           \<and> edges G' = edges G"
  using assms
proof (induction rs arbitrary: G)
  case Nil
  show ?case by (simp add: node_set_def selected_def)
next
  case (Cons r rs)
  from Cons.prems have "ref_no r \<in> selected rows" by (auto simp: selected_def)
  then have l: "lookup (build_node_id_by_ref resolved rows) (ref_no r) = Inr (node_id resolved (ref_no r))"
    by (rule lookup_node_id_by_ref)
  let ?G1 = "add_node (node_id resolved (ref_no r)) (node_attrs resolved r) G"
  from Cons.prems have "set rs \<subseteq> set rows" by simp
  from Cons.IH [OF this, of ?G1] obtain G' where
    a: "add_nodes resolved (build_node_id_by_ref resolved rows) rs ?G1 = Inr G'"
    and n: "fst ` set (nodes G') = fst ` set (nodes ?G1) \<union> node_set resolved rs"
    and e: "edges G' = edges ?G1" by blast
  have "fst ` set (nodes ?G1) = insert (node_id resolved (ref_no r)) (fst ` set (nodes G))"
    by (simp add: add_node_def dom_update)
  with a n e l show ?case
    by (auto simp: add_node_def node_set_def selected_def)
qed

text \<open>
  \<open>internal resolved rows rs\<close> are the citations of the records in \<open>rs\<close> that stay
  inside the node set: from the node of a resolved reference to an identity that its
  record lists and that is a node. \<open>internal_rows\<close> are the pairs of selected numbers
  that can stand for such a citation in the table of the edges.
\<close>

definition internal :: "(int \<times> OAWork) list \<Rightarrow> row list \<Rightarrow> (int \<times> OAWork) list \<Rightarrow> (pystr \<times> pystr) set" where
  "internal resolved rows rs =
     {(u, v). \<exists>n w. (n, w) \<in> set rs \<and> u = node_id resolved n
                \<and> v \<in> set (referenced_works w) \<and> v \<in> node_set resolved rows}"

definition internal_rows :: "(int \<times> OAWork) list \<Rightarrow> row list \<Rightarrow> (int \<times> OAWork) list \<Rightarrow> (int \<times> int) set" where
  "internal_rows resolved rows rs =
     {(a, b). a \<in> selected rows \<and> b \<in> selected rows
        \<and> (\<exists>n w. (n, w) \<in> set rs \<and> node_id resolved a = node_id resolved n
               \<and> node_id resolved b \<in> set (referenced_works w))}"

lemma add_edge_known:
  "u \<in> fst ` set (nodes G) \<Longrightarrow> v \<in> fst ` set (nodes G) \<Longrightarrow>
     nodes (add_edge u v G) = nodes G \<and> set (edges (add_edge u v G)) = insert (u, v) (set (edges G))"
  by (auto simp: add_edge_def touch_node_def)

lemma add_targets_result:
  assumes "n \<in> selected rows" and "node_set resolved rows \<subseteq> fst ` set (nodes G)"
  shows "\<exists>G' er'. add_targets (build_ref_by_node_id (build_node_id_by_ref resolved rows))
             (node_id resolved n) ts (G, er) = Inr (G', er')
           \<and> fst ` set (nodes G') = fst ` set (nodes G)
           \<and> set (edges G') = set (edges G)
                \<union> {node_id resolved n} \<times> (set ts \<inter> node_set resolved rows)
           \<and> set er' \<subseteq> set er
                \<union> {(a, b). a \<in> selected rows \<and> b \<in> selected rows
                       \<and> node_id resolved a = node_id resolved n \<and> node_id resolved b \<in> set ts}"
  using assms(2)
proof (induction ts arbitrary: G er)
  case Nil
  show ?case by simp
next
  case (Cons t ts)
  let ?rbn = "build_ref_by_node_id (build_node_id_by_ref resolved rows)"
  let ?src = "node_id resolved n"
  have keys: "set (map fst ?rbn) = node_set resolved rows"
    using keys_ref_by_node_id [of resolved rows] by simp
  have src: "?src \<in> node_set resolved rows"
    using assms(1) by (simp add: node_set_def)
  show ?case
  proof (cases "t \<in> node_set resolved rows")
    case False
    from Cons.IH [OF Cons.prems, of er] False keys show ?thesis
      by (auto simp del: set_map)
  next
    case True
    from lookup_ref_by_node_id [OF src] obtain a where
      a: "lookup ?rbn ?src = Inr a" "a \<in> selected rows" "node_id resolved a = ?src" by blast
    from lookup_ref_by_node_id [OF True] obtain b where
      b: "lookup ?rbn t = Inr b" "b \<in> selected rows" "node_id resolved b = t" by blast
    let ?G1 = "add_edge ?src t G"
    have k: "nodes ?G1 = nodes G \<and> set (edges ?G1) = insert (?src, t) (set (edges G))"
      using src True Cons.prems by (intro add_edge_known) auto
    then have "node_set resolved rows \<subseteq> fst ` set (nodes ?G1)"
      using Cons.prems by simp
    from Cons.IH [OF this, of "er @ [(a, b)]"] obtain G' er' where
      r: "add_targets ?rbn ?src ts (?G1, er @ [(a, b)]) = Inr (G', er')"
      and n: "fst ` set (nodes G') = fst ` set (nodes ?G1)"
      and e: "set (edges G') = set (edges ?G1) \<union> {?src} \<times> (set ts \<inter> node_set resolved rows)"
      and s: "set er' \<subseteq> set (er @ [(a, b)])
                \<union> {(a, b). a \<in> selected rows \<and> b \<in> selected rows
                       \<and> node_id resolved a = ?src \<and> node_id resolved b \<in> set ts}"
      by blast
    have "add_targets ?rbn ?src (t # ts) (G, er) = Inr (G', er')"
      using True keys a b r by (simp del: set_map)
    moreover have "fst ` set (nodes G') = fst ` set (nodes G)"
      using n k by simp
    moreover have "set (edges G') = set (edges G)
        \<union> {?src} \<times> (set (t # ts) \<inter> node_set resolved rows)"
      using e k True by auto
    moreover have "set er' \<subseteq> set er
                \<union> {(a, b). a \<in> selected rows \<and> b \<in> selected rows
                       \<and> node_id resolved a = ?src \<and> node_id resolved b \<in> set (t # ts)}"
      using s a b by auto
    ultimately show ?thesis by blast
  qed
qed

lemma add_edges_result:
  assumes "fst ` set rs \<subseteq> selected rows" and "node_set resolved rows \<subseteq> fst ` set (nodes G)"
  shows "\<exists>G' er'. add_edges (build_node_id_by_ref resolved rows)
             (build_ref_by_node_id (build_node_id_by_ref resolved rows)) rs (G, er) = Inr (G', er')
           \<and> fst ` set (nodes G') = fst ` set (nodes G)
           \<and> set (edges G') = set (edges G) \<union> internal resolved rows rs
           \<and> set er' \<subseteq> set er \<union> internal_rows resolved rows rs"
  using assms
proof (induction rs arbitrary: G er)
  case Nil
  show ?case by (simp add: internal_def internal_rows_def)
next
  case (Cons x rs)
  obtain n w where x: "x = (n, w)" by (cases x)
  let ?nbr = "build_node_id_by_ref resolved rows"
  let ?rbn = "build_ref_by_node_id ?nbr"
  from Cons.prems x have n: "n \<in> selected rows" and rest: "fst ` set rs \<subseteq> selected rows"
    by auto
  from add_targets_result [OF n Cons.prems(2), of "referenced_works w" er] obtain G1 er1 where
    t: "add_targets ?rbn (node_id resolved n) (referenced_works w) (G, er) = Inr (G1, er1)"
    and n1: "fst ` set (nodes G1) = fst ` set (nodes G)"
    and e1: "set (edges G1) = set (edges G)
        \<union> {node_id resolved n} \<times> (set (referenced_works w) \<inter> node_set resolved rows)"
    and s1: "set er1 \<subseteq> set er
        \<union> {(a, b). a \<in> selected rows \<and> b \<in> selected rows
               \<and> node_id resolved a = node_id resolved n
               \<and> node_id resolved b \<in> set (referenced_works w)}"
    by blast
  from n1 Cons.prems(2) have "node_set resolved rows \<subseteq> fst ` set (nodes G1)" by simp
  from Cons.IH [OF rest this, of er1] obtain G' er' where
    r: "add_edges ?nbr ?rbn rs (G1, er1) = Inr (G', er')"
    and n2: "fst ` set (nodes G') = fst ` set (nodes G1)"
    and e2: "set (edges G') = set (edges G1) \<union> internal resolved rows rs"
    and s2: "set er' \<subseteq> set er1 \<union> internal_rows resolved rows rs"
    by blast
  have "add_edges ?nbr ?rbn (x # rs) (G, er) = Inr (G', er')"
    using x lookup_node_id_by_ref [OF n, of resolved] t r by simp
  moreover have "fst ` set (nodes G') = fst ` set (nodes G)"
    using n1 n2 by simp
  moreover have "set (edges G') = set (edges G) \<union> internal resolved rows (x # rs)"
    using e1 e2 x by (auto simp: internal_def)
  moreover have "set er' \<subseteq> set er \<union> internal_rows resolved rows (x # rs)"
  proof -
    have "{(a, b). a \<in> selected rows \<and> b \<in> selected rows
               \<and> node_id resolved a = node_id resolved n
               \<and> node_id resolved b \<in> set (referenced_works w)}
          \<subseteq> internal_rows resolved rows (x # rs)"
      using x by (auto simp: internal_rows_def)
    moreover have "internal_rows resolved rows rs \<subseteq> internal_rows resolved rows (x # rs)"
      by (auto simp: internal_rows_def)
    ultimately show ?thesis using s1 s2 by blast
  qed
  ultimately show ?case by blast
qed

lemma build_graph_result:
  assumes "fst ` set resolved \<subseteq> selected rows"
  shows "\<exists>G er. build_graph resolved rows = Inr (G, er)
           \<and> fst ` set (nodes G) = node_set resolved rows
           \<and> set (edges G) = internal resolved rows resolved
           \<and> set er \<subseteq> internal_rows resolved rows resolved"
proof -
  from add_nodes_result [of rows rows resolved "\<lparr>nodes = [], edges = []\<rparr>"] obtain G0 where
    a: "add_nodes resolved (build_node_id_by_ref resolved rows) rows \<lparr>nodes = [], edges = []\<rparr>
        = Inr G0"
    and n: "fst ` set (nodes G0) = node_set resolved rows" and e: "edges G0 = []"
    by auto
  from n have "node_set resolved rows \<subseteq> fst ` set (nodes G0)" by simp
  from add_edges_result [OF assms this, of "[]"] a n e show ?thesis
    by (auto simp: build_graph_def Let_def)
qed

lemma resolve_loop_keys:
  "fst ` set (fst (resolve_loop svc rs (res, un))) \<subseteq> fst ` set res \<union> ref_no ` set rs"
proof (induction rs arbitrary: res un)
  case Nil
  show ?case by simp
next
  case (Cons r rs)
  show ?case
  proof (cases "fetch svc r")
    case None
    then show ?thesis using Cons.IH [of res "un @ [ref_no r]"] by auto
  next
    case (Some w)
    show ?thesis
    proof (cases "w_id w = []")
      case True
      with Some show ?thesis using Cons.IH [of res "un @ [ref_no r]"] by auto
    next
      case False
      have "fst ` set (fst (resolve_loop svc rs (AList.update (ref_no r) w res, un)))
          \<subseteq> fst ` set (AList.update (ref_no r) w res) \<union> ref_no ` set rs"
        by (rule Cons.IH)
      also have "fst ` set (AList.update (ref_no r) w res) = insert (ref_no r) (fst ` set res)"
        by (simp add: dom_update)
      finally show ?thesis using Some False by auto
    qed
  qed
qed

lemma resolved_selected:
  "fst ` set (fst (resolve_loop svc rows ([], []))) \<subseteq> selected rows"
  using resolve_loop_keys [of svc rows "[]" "[]"] by (simp add: selected_def)

lemma rows_ref_nos: "map_err (make_row U m) chosen = Inr rows \<Longrightarrow> map ref_no rows = chosen"
proof (induction chosen arbitrary: rows)
  case Nil
  then show ?case by simp
next
  case (Cons k ks)
  from Cons.prems obtain r rs where r: "make_row U m k = Inr r"
    and rs: "map_err (make_row U m) ks = Inr rs" and e: "rows = r # rs"
    by (auto split: sum.splits)
  from make_row_fields [OF r] Cons.IH [OF rs] e show ?case by simp
qed

lemma run_selected: "run_chosen U svc refs chosen = Inr R \<Longrightarrow> selected (rows_of R) = set chosen"
proof -
  assume "run_chosen U svc refs chosen = Inr R"
  from run_chosen_fields [OF this]
  have "map_err (make_row U (build_ref_map refs)) chosen = Inr (rows_of R)" by simp
  from rows_ref_nos [OF this] have "set (map ref_no (rows_of R)) = set chosen" by simp
  then show ?thesis by (simp add: selected_def)
qed

lemma internal_inside:
  "fst ` set resolved \<subseteq> selected rows \<Longrightarrow> (u, v) \<in> internal resolved rows resolved
     \<Longrightarrow> u \<in> node_set resolved rows \<and> v \<in> node_set resolved rows"
  by (force simp: internal_def node_set_def)

lemma internal_rows_inside:
  "(a, b) \<in> internal_rows resolved rows rs \<Longrightarrow> a \<in> selected rows \<and> b \<in> selected rows"
  by (simp add: internal_rows_def)

text \<open>
  C1: the graph is always built; its nodes are exactly the node ids of the selected
  references; its edges are exactly the citations, listed by the resolved records, whose
  target is one of these nodes, so that every edge has both ends among the nodes and
  a listed identity outside the selection gives no edge; and every row of the table of
  the edges names two selected references. The same holds for the graph and the table of
  a run, whose selected references are the chosen numbers.
\<close>

theorem internal_edges_only:
  "(\<exists>G er. build_graph (fst (resolve_loop svc rows ([], []))) rows = Inr (G, er)
      \<and> fst ` set (nodes G) = node_set (fst (resolve_loop svc rows ([], []))) rows
      \<and> set (edges G)
          = internal (fst (resolve_loop svc rows ([], []))) rows (fst (resolve_loop svc rows ([], [])))
      \<and> (\<forall>(u, v)\<in>set (edges G). u \<in> fst ` set (nodes G) \<and> v \<in> fst ` set (nodes G))
      \<and> (\<forall>(a, b)\<in>set er. a \<in> selected rows \<and> b \<in> selected rows))
   \<and> (run_chosen U svc refs chosen = Inr R \<longrightarrow>
        fst ` set (nodes (graph R)) = node_id (resolved_of R) ` set chosen
        \<and> (\<forall>(u, v)\<in>set (edges (graph R)).
              u \<in> node_id (resolved_of R) ` set chosen \<and> v \<in> node_id (resolved_of R) ` set chosen)
        \<and> (\<forall>(a, b)\<in>set (edges_rows_of R). a \<in> set chosen \<and> b \<in> set chosen))"
proof -
  have gen: "\<exists>G er. build_graph (fst (resolve_loop svc rows ([], []))) rows = Inr (G, er)
      \<and> fst ` set (nodes G) = node_set (fst (resolve_loop svc rows ([], []))) rows
      \<and> set (edges G)
          = internal (fst (resolve_loop svc rows ([], []))) rows (fst (resolve_loop svc rows ([], [])))
      \<and> (\<forall>(u, v)\<in>set (edges G). u \<in> fst ` set (nodes G) \<and> v \<in> fst ` set (nodes G))
      \<and> (\<forall>(a, b)\<in>set er. a \<in> selected rows \<and> b \<in> selected rows)" for rows
  proof -
    define resolved where "resolved = fst (resolve_loop svc rows ([], []))"
    have k: "fst ` set resolved \<subseteq> selected rows"
      unfolding resolved_def by (rule resolved_selected)
    from build_graph_result [OF k] obtain G er where
      b: "build_graph resolved rows = Inr (G, er)"
      and n: "fst ` set (nodes G) = node_set resolved rows"
      and e: "set (edges G) = internal resolved rows resolved"
      and s: "set er \<subseteq> internal_rows resolved rows resolved" by blast
    have "\<forall>(u, v)\<in>set (edges G). u \<in> fst ` set (nodes G) \<and> v \<in> fst ` set (nodes G)"
      using e n internal_inside [OF k] by auto
    moreover have "\<forall>(a, b)\<in>set er. a \<in> selected rows \<and> b \<in> selected rows"
      using s internal_rows_inside [of _ _ resolved rows resolved] by auto
    ultimately show ?thesis
      using b n e unfolding resolved_def by blast
  qed
  have "run_chosen U svc refs chosen = Inr R \<longrightarrow>
        fst ` set (nodes (graph R)) = node_id (resolved_of R) ` set chosen
        \<and> (\<forall>(u, v)\<in>set (edges (graph R)).
              u \<in> node_id (resolved_of R) ` set chosen \<and> v \<in> node_id (resolved_of R) ` set chosen)
        \<and> (\<forall>(a, b)\<in>set (edges_rows_of R). a \<in> set chosen \<and> b \<in> set chosen)"
  proof
    assume rc: "run_chosen U svc refs chosen = Inr R"
    note f = run_chosen_fields [OF rc]
    note sel = run_selected [OF rc]
    from f have res: "resolved_of R = fst (resolve_loop svc (rows_of R) ([], []))"
      by blast
    from f have bg: "build_graph (resolved_of R) (rows_of R) = Inr (graph R, edges_rows_of R)"
      by blast
    from gen [of "rows_of R"] obtain G er where
      g: "build_graph (fst (resolve_loop svc (rows_of R) ([], []))) (rows_of R) = Inr (G, er)"
      and n: "fst ` set (nodes G) = node_set (fst (resolve_loop svc (rows_of R) ([], []))) (rows_of R)"
      and ed: "\<forall>(u, v)\<in>set (edges G). u \<in> fst ` set (nodes G) \<and> v \<in> fst ` set (nodes G)"
      and er: "\<forall>(a, b)\<in>set er. a \<in> selected (rows_of R) \<and> b \<in> selected (rows_of R)"
      by blast
    from g bg have eq: "G = graph R" "er = edges_rows_of R"
      unfolding res [symmetric] by simp_all
    have n': "fst ` set (nodes (graph R)) = node_id (resolved_of R) ` set chosen"
      using n unfolding res [symmetric] eq node_set_def sel .
    from ed have "\<forall>(u, v)\<in>set (edges (graph R)).
              u \<in> node_id (resolved_of R) ` set chosen \<and> v \<in> node_id (resolved_of R) ` set chosen"
      unfolding eq n' .
    moreover from er have "\<forall>(a, b)\<in>set (edges_rows_of R). a \<in> set chosen \<and> b \<in> set chosen"
      unfolding eq sel .
    ultimately show "fst ` set (nodes (graph R)) = node_id (resolved_of R) ` set chosen
        \<and> (\<forall>(u, v)\<in>set (edges (graph R)).
              u \<in> node_id (resolved_of R) ` set chosen \<and> v \<in> node_id (resolved_of R) ` set chosen)
        \<and> (\<forall>(a, b)\<in>set (edges_rows_of R). a \<in> set chosen \<and> b \<in> set chosen)"
      using n' by blast
  qed
  with gen [of rows] show ?thesis by blast
qed

text \<open>
  C1 at the run with one citation: the record of reference 1 lists \<open>W2\<close> and \<open>W9\<close>,
  the graph has the nodes \<open>W1\<close> and \<open>W2\<close> and the one edge between them.
\<close>

theorem internal_edges_only_witness:
  "build_graph (fst (resolve_loop cite_service cite_rows ([], []))) cite_rows
     = Inr (cite_graph, [(1, 2)])
   \<and> referenced_works (snd (hd cite_resolved)) = [asc ''W2'', asc ''W9'']
   \<and> fst ` set (nodes cite_graph) = {asc ''W1'', asc ''W2''}
   \<and> edges cite_graph = [(asc ''W1'', asc ''W2'')]
   \<and> selected cite_rows = {1, 2}
   \<and> run_chosen plain_ucd cite_service cite_refs [1, 2] = Inr cite_result
   \<and> graph cite_result = cite_graph \<and> edges_rows_of cite_result = [(1, 2)]"
proof -
  have b: "build_graph (fst (resolve_loop cite_service cite_rows ([], []))) cite_rows
     = Inr (cite_graph, [(1, 2)])"
    by (simp add: cite_resolve cite_build)
  have r: "run_chosen plain_ucd cite_service cite_refs [1, 2] = Inr cite_result"
    by (rule cite_run)
  have c: "referenced_works (snd (hd cite_resolved)) = [asc ''W2'', asc ''W9'']"
    "edges cite_graph = [(asc ''W1'', asc ''W2'')]" "selected cite_rows = {1, 2}"
    "graph cite_result = cite_graph" "edges_rows_of cite_result = [(1, 2)]"
    by (simp_all add: cite_resolved_def cite_graph_def cite_rows_def selected_def cite_result_def)
  note t = internal_edges_only [of cite_service cite_rows plain_ucd cite_refs "[1, 2]" cite_result]
  from t [THEN conjunct2, THEN mp, OF r, THEN conjunct1]
  have "fst ` set (nodes (graph cite_result)) = node_id (resolved_of cite_result) ` set [1, 2]" .
  then have "fst ` set (nodes cite_graph) = node_id (resolved_of cite_result) ` set [1, 2]"
    unfolding c .
  also have "\<dots> = {asc ''W1'', asc ''W2''}"
    by (simp add: cite_result_def cite_resolved_def node_id_def)
  finally have n: "fst ` set (nodes cite_graph) = {asc ''W1'', asc ''W2''}" .
  from b r c n show ?thesis by blast
qed

section \<open>Placeholder nodes\<close>

text \<open>
  A row is resolvable when the service gives a record with an identity for it.
  \<open>separated resolved rows\<close>: no identity that the service delivered, as the
  identity of a record or in its list of referenced works, is the placeholder id of a
  selected reference.
\<close>

definition resolvable :: "service \<Rightarrow> row \<Rightarrow> bool" where
  "resolvable svc r = (case fetch svc r of None \<Rightarrow> False | Some w \<Rightarrow> w_id w \<noteq> [])"

definition separated :: "(int \<times> OAWork) list \<Rightarrow> row list \<Rightarrow> bool" where
  "separated resolved rows =
     (\<forall>(n, w)\<in>set resolved. \<forall>m\<in>selected rows.
        w_id w \<noteq> unresolved_id m \<and> unresolved_id m \<notin> set (referenced_works w))"

lemma unresolved_id_inj: "(unresolved_id m = unresolved_id n) = (m = n)"
proof
  assume "unresolved_id m = unresolved_id n"
  then have "str_int m = str_int n" by (simp add: unresolved_id_def)
  then have "py_int plain_ucd (str_int m) = py_int plain_ucd (str_int n)" by simp
  then show "m = n" by (simp add: py_int_str_int)
qed simp

lemma resolve_loop_unresolved:
  "set (snd (resolve_loop svc rs (res, un))) = set un \<union> ref_no ` {r \<in> set rs. \<not> resolvable svc r}"
proof (induction rs arbitrary: res un)
  case Nil
  show ?case by simp
next
  case (Cons r rs)
  show ?case
  proof (cases "resolvable svc r")
    case True
    then obtain w where w: "fetch svc r = Some w" "w_id w \<noteq> []"
      by (auto simp: resolvable_def split: option.splits)
    with True Cons.IH [of "AList.update (ref_no r) w res" un] show ?thesis by auto
  next
    case False
    then have "resolve_loop svc (r # rs) (res, un) = resolve_loop svc rs (res, un @ [ref_no r])"
      by (auto simp: resolvable_def split: option.splits)
    with False Cons.IH [of res "un @ [ref_no r]"] show ?thesis by auto
  qed
qed

lemma resolve_loop_resolved:
  "fst ` set (fst (resolve_loop svc rs (res, un)))
     = fst ` set res \<union> ref_no ` {r \<in> set rs. resolvable svc r}"
proof (induction rs arbitrary: res un)
  case Nil
  show ?case by simp
next
  case (Cons r rs)
  show ?case
  proof (cases "resolvable svc r")
    case True
    then obtain w where w: "fetch svc r = Some w" "w_id w \<noteq> []"
      by (auto simp: resolvable_def split: option.splits)
    have "fst ` set (fst (resolve_loop svc rs (AList.update (ref_no r) w res, un)))
        = fst ` set (AList.update (ref_no r) w res) \<union> ref_no ` {r \<in> set rs. resolvable svc r}"
      by (rule Cons.IH)
    also have "fst ` set (AList.update (ref_no r) w res) = insert (ref_no r) (fst ` set res)"
      by (simp add: dom_update)
    finally show ?thesis using True w by auto
  next
    case False
    then have "resolve_loop svc (r # rs) (res, un) = resolve_loop svc rs (res, un @ [ref_no r])"
      by (auto simp: resolvable_def split: option.splits)
    with False Cons.IH [of res "un @ [ref_no r]"] show ?thesis by auto
  qed
qed

lemma resolve_loop_distinct:
  "distinct (map fst res) \<Longrightarrow> distinct (map fst (fst (resolve_loop svc rs (res, un))))"
proof (induction rs arbitrary: res un)
  case Nil
  then show ?case by simp
next
  case (Cons r rs)
  show ?case
  proof (cases "resolvable svc r")
    case True
    then obtain w where w: "fetch svc r = Some w" "w_id w \<noteq> []"
      by (auto simp: resolvable_def split: option.splits)
    have "distinct (map fst (AList.update (ref_no r) w res))"
      using Cons.prems by (simp add: distinct_update)
    from Cons.IH [OF this, of un] w show ?thesis by simp
  next
    case False
    then have "resolve_loop svc (r # rs) (res, un) = resolve_loop svc rs (res, un @ [ref_no r])"
      by (auto simp: resolvable_def split: option.splits)
    with Cons.IH [OF Cons.prems, of "un @ [ref_no r]"] show ?thesis by simp
  qed
qed

lemma unresolved_are_missing:
  assumes "distinct (map ref_no rows)"
  shows "set (snd (resolve_loop svc rows ([], [])))
           = {n \<in> selected rows. map_of (fst (resolve_loop svc rows ([], []))) n = None}"
proof -
  have inj: "inj_on ref_no (set rows)"
    using assms by (simp add: distinct_map)
  have u: "set (snd (resolve_loop svc rows ([], []))) = ref_no ` {r \<in> set rows. \<not> resolvable svc r}"
    using resolve_loop_unresolved [of svc rows "[]" "[]"] by simp
  have k: "fst ` set (fst (resolve_loop svc rows ([], []))) = ref_no ` {r \<in> set rows. resolvable svc r}"
    using resolve_loop_resolved [of svc rows "[]" "[]"] by simp
  have "ref_no ` {r \<in> set rows. \<not> resolvable svc r}
      = selected rows - ref_no ` {r \<in> set rows. resolvable svc r}"
    unfolding selected_def using inj by (auto dest: inj_onD)
  then show ?thesis
    unfolding u k [symmetric] by (auto simp: map_of_eq_None_iff)
qed

lemma node_id_resolved:
  "distinct (map fst resolved) \<Longrightarrow> (n, w) \<in> set resolved \<Longrightarrow> node_id resolved n = w_id w"
  by (simp add: node_id_def)

lemma internal_sources:
  assumes "distinct (map fst resolved)" and "(u, v) \<in> internal resolved rows resolved"
  shows "\<exists>n w. (n, w) \<in> set resolved \<and> u = w_id w \<and> v \<in> set (referenced_works w)"
proof -
  from assms(2) obtain n w where "(n, w) \<in> set resolved" "u = node_id resolved n"
    "v \<in> set (referenced_works w)"
    by (auto simp: internal_def)
  with node_id_resolved [OF assms(1)] show ?thesis by blast
qed

lemma separatedD:
  "separated resolved rows \<Longrightarrow> (n, w) \<in> set resolved \<Longrightarrow> m \<in> selected rows
     \<Longrightarrow> w_id w \<noteq> unresolved_id m \<and> unresolved_id m \<notin> set (referenced_works w)"
  unfolding separated_def by blast

lemma separated_edges:
  assumes "distinct (map fst resolved)" and "separated resolved rows"
    and "m \<in> selected rows" and "(u, v) \<in> internal resolved rows resolved"
  shows "u \<noteq> unresolved_id m \<and> v \<noteq> unresolved_id m"
proof -
  from internal_sources [OF assms(1,4)] obtain n w where
    nw: "(n, w) \<in> set resolved" and u: "u = w_id w" and v: "v \<in> set (referenced_works w)"
    by blast
  from separatedD [OF assms(2) nw assms(3)] u v show ?thesis by auto
qed

lemma separated_rows:
  assumes "distinct (map fst resolved)" and "separated resolved rows"
    and "m \<in> selected rows" and "map_of resolved m = None"
    and "(a, b) \<in> internal_rows resolved rows resolved"
  shows "a \<noteq> m \<and> b \<noteq> m"
proof -
  from assms(5) obtain n w where nw: "(n, w) \<in> set resolved"
    and a: "node_id resolved a = node_id resolved n"
    and b: "node_id resolved b \<in> set (referenced_works w)"
    by (auto simp: internal_rows_def)
  from assms(4) have m: "node_id resolved m = unresolved_id m"
    by (simp add: node_id_def)
  from nw assms(1) have "node_id resolved n = w_id w" by (rule node_id_resolved [rotated])
  with a b m separatedD [OF assms(2) nw assms(3)] show ?thesis by auto
qed

lemma parse_selection_distinct: "parse_selection U sel A = Inr xs \<Longrightarrow> distinct xs"
  by (auto simp: parse_selection_parts split: if_splits)

lemma main_unresolved:
  assumes "main U svc rtf select = Inr R"
  shows "set (unresolved_of R) = {k \<in> set (chosen_ref_nos R). map_of (resolved_of R) k = None}"
    and "\<forall>k\<in>set (unresolved_of R). node_id (resolved_of R) k = unresolved_id k
            \<and> unresolved_id k \<in> fst ` set (nodes (graph R))"
proof -
  from main_run_chosen [OF assms] obtain refs chosen where
    ps: "parse_selection U select (set (map fst (build_ref_map refs))) = Inr chosen"
    and rc: "run_chosen U svc refs chosen = Inr R" by blast
  note f = run_chosen_fields [OF rc]
  from f have rows: "map_err (make_row U (build_ref_map refs)) chosen = Inr (rows_of R)" by blast
  from f have res: "resolved_of R = fst (resolve_loop svc (rows_of R) ([], []))" by blast
  from f have un: "unresolved_of R = snd (resolve_loop svc (rows_of R) ([], []))" by blast
  from f have ch: "chosen_ref_nos R = chosen" by blast
  from f have bg: "build_graph (resolved_of R) (rows_of R) = Inr (graph R, edges_rows_of R)" by blast
  have d: "distinct (map ref_no (rows_of R))"
    using rows_ref_nos [OF rows] parse_selection_distinct [OF ps] by simp
  have sel: "selected (rows_of R) = set chosen"
    by (rule run_selected [OF rc])
  show a: "set (unresolved_of R) = {k \<in> set (chosen_ref_nos R). map_of (resolved_of R) k = None}"
    using unresolved_are_missing [OF d, of svc] unfolding un res ch sel [symmetric] .
  have k: "fst ` set (resolved_of R) \<subseteq> selected (rows_of R)"
    unfolding res by (rule resolved_selected)
  from build_graph_result [OF k] bg
  have n: "fst ` set (nodes (graph R)) = node_set (resolved_of R) (rows_of R)" by auto
  show "\<forall>k\<in>set (unresolved_of R). node_id (resolved_of R) k = unresolved_id k
            \<and> unresolved_id k \<in> fst ` set (nodes (graph R))"
  proof
    fix k assume "k \<in> set (unresolved_of R)"
    with a have c: "k \<in> set chosen" and m: "map_of (resolved_of R) k = None"
      unfolding ch by auto
    from m have i: "node_id (resolved_of R) k = unresolved_id k" by (simp add: node_id_def)
    from c have "node_id (resolved_of R) k \<in> node_set (resolved_of R) (rows_of R)"
      unfolding node_set_def sel by simp
    with i n show "node_id (resolved_of R) k = unresolved_id k
            \<and> unresolved_id k \<in> fst ` set (nodes (graph R))" by simp
  qed
qed

lemma placeholder_edges:
  assumes "build_graph (fst (resolve_loop svc rows ([], []))) rows = Inr (G, er)"
  shows "\<forall>(u, v)\<in>set (edges G).
           \<exists>k w. (k, w) \<in> set (fst (resolve_loop svc rows ([], []))) \<and> u = w_id w
                  \<and> v \<in> set (referenced_works w)"
    and "separated (fst (resolve_loop svc rows ([], []))) rows \<longrightarrow>
           (\<forall>k\<in>selected rows. map_of (fst (resolve_loop svc rows ([], []))) k = None \<longrightarrow>
              (\<forall>(u, v)\<in>set (edges G). u \<noteq> unresolved_id k \<and> v \<noteq> unresolved_id k)
              \<and> (\<forall>(a, b)\<in>set er. a \<noteq> k \<and> b \<noteq> k))"
proof -
  define resolved where "resolved = fst (resolve_loop svc rows ([], []))"
  have k: "fst ` set resolved \<subseteq> selected rows"
    unfolding resolved_def by (rule resolved_selected)
  have d: "distinct (map fst resolved)"
    unfolding resolved_def by (rule resolve_loop_distinct) simp
  from build_graph_result [OF k] assms
  have e: "set (edges G) = internal resolved rows resolved"
    and s: "set er \<subseteq> internal_rows resolved rows resolved"
    unfolding resolved_def by auto
  show "\<forall>(u, v)\<in>set (edges G).
           \<exists>k w. (k, w) \<in> set (fst (resolve_loop svc rows ([], []))) \<and> u = w_id w
                  \<and> v \<in> set (referenced_works w)"
    using internal_sources [OF d, of _ _ rows] e unfolding resolved_def by blast
  show "separated (fst (resolve_loop svc rows ([], []))) rows \<longrightarrow>
           (\<forall>k\<in>selected rows. map_of (fst (resolve_loop svc rows ([], []))) k = None \<longrightarrow>
              (\<forall>(u, v)\<in>set (edges G). u \<noteq> unresolved_id k \<and> v \<noteq> unresolved_id k)
              \<and> (\<forall>(a, b)\<in>set er. a \<noteq> k \<and> b \<noteq> k))"
  proof (intro impI ballI conjI)
    fix m x
    assume sep: "separated (fst (resolve_loop svc rows ([], []))) rows"
      and m: "m \<in> selected rows" and x: "x \<in> set (edges G)"
    obtain u v where uv: "x = (u, v)" by (cases x)
    with x e have "(u, v) \<in> internal resolved rows resolved" by simp
    from separated_edges [OF d sep [folded resolved_def] m this] uv
    show "case x of (u, v) \<Rightarrow> u \<noteq> unresolved_id m \<and> v \<noteq> unresolved_id m" by simp
  next
    fix m x
    assume sep: "separated (fst (resolve_loop svc rows ([], []))) rows"
      and m: "m \<in> selected rows" and x: "x \<in> set er"
      and none: "map_of (fst (resolve_loop svc rows ([], []))) m = None"
    obtain a b where ab: "x = (a, b)" by (cases x)
    with x s have "(a, b) \<in> internal_rows resolved rows resolved" by auto
    from separated_rows [OF d sep [folded resolved_def] m none [folded resolved_def] this] ab
    show "case x of (a, b) \<Rightarrow> a \<noteq> m \<and> b \<noteq> m" by simp
  qed
qed

text \<open>
  C2, as amended: the placeholder id is \<open>UNRESOLVED_REF_\<close> followed by the decimal
  digits of the number, so it depends on the number alone and differs for different numbers.
  In a run the unresolved references are the chosen numbers without a resolved record,
  and each of them is a node under its placeholder id. Every edge starts at the identity
  of a resolved record and ends at an identity that this record lists. When no identity
  delivered by the service is the placeholder id of a selected reference, no edge
  starts or ends at the placeholder node of an unresolved reference, and no row of the
  table of the edges names an unresolved reference.
\<close>

theorem placeholder_nodes:
  "(unresolved_id m = unresolved_id n) = (m = n)
   \<and> unresolved_id 12 = asc ''UNRESOLVED_REF_12''
   \<and> (main U svc rtf select = Inr R \<longrightarrow>
        set (unresolved_of R) = {k \<in> set (chosen_ref_nos R). map_of (resolved_of R) k = None}
        \<and> (\<forall>k\<in>set (unresolved_of R). node_id (resolved_of R) k = unresolved_id k
              \<and> unresolved_id k \<in> fst ` set (nodes (graph R))))
   \<and> (build_graph (fst (resolve_loop svc rows ([], []))) rows = Inr (G, er) \<longrightarrow>
        (\<forall>(u, v)\<in>set (edges G).
           \<exists>k w. (k, w) \<in> set (fst (resolve_loop svc rows ([], []))) \<and> u = w_id w
                  \<and> v \<in> set (referenced_works w))
        \<and> (separated (fst (resolve_loop svc rows ([], []))) rows \<longrightarrow>
             (\<forall>k\<in>selected rows. map_of (fst (resolve_loop svc rows ([], []))) k = None \<longrightarrow>
                (\<forall>(u, v)\<in>set (edges G). u \<noteq> unresolved_id k \<and> v \<noteq> unresolved_id k)
                \<and> (\<forall>(a, b)\<in>set er. a \<noteq> k \<and> b \<noteq> k))))"
proof -
  have a: "unresolved_id 12 = asc ''UNRESOLVED_REF_12''"
    by (simp add: unresolved_id_def str_int_def str_nat.simps asc_def)
  have b: "main U svc rtf select = Inr R \<longrightarrow>
        set (unresolved_of R) = {k \<in> set (chosen_ref_nos R). map_of (resolved_of R) k = None}
        \<and> (\<forall>k\<in>set (unresolved_of R). node_id (resolved_of R) k = unresolved_id k
              \<and> unresolved_id k \<in> fst ` set (nodes (graph R)))"
  proof
    assume m: "main U svc rtf select = Inr R"
    from main_unresolved(1) [OF m] main_unresolved(2) [OF m]
    show "set (unresolved_of R) = {k \<in> set (chosen_ref_nos R). map_of (resolved_of R) k = None}
        \<and> (\<forall>k\<in>set (unresolved_of R). node_id (resolved_of R) k = unresolved_id k
              \<and> unresolved_id k \<in> fst ` set (nodes (graph R)))"
      by (rule conjI)
  qed
  have c: "build_graph (fst (resolve_loop svc rows ([], []))) rows = Inr (G, er) \<longrightarrow>
        (\<forall>(u, v)\<in>set (edges G).
           \<exists>k w. (k, w) \<in> set (fst (resolve_loop svc rows ([], []))) \<and> u = w_id w
                  \<and> v \<in> set (referenced_works w))
        \<and> (separated (fst (resolve_loop svc rows ([], []))) rows \<longrightarrow>
             (\<forall>k\<in>selected rows. map_of (fst (resolve_loop svc rows ([], []))) k = None \<longrightarrow>
                (\<forall>(u, v)\<in>set (edges G). u \<noteq> unresolved_id k \<and> v \<noteq> unresolved_id k)
                \<and> (\<forall>(a, b)\<in>set er. a \<noteq> k \<and> b \<noteq> k)))"
  proof
    assume bg: "build_graph (fst (resolve_loop svc rows ([], []))) rows = Inr (G, er)"
    from placeholder_edges(1) [OF bg] placeholder_edges(2) [OF bg]
    show "(\<forall>(u, v)\<in>set (edges G).
           \<exists>k w. (k, w) \<in> set (fst (resolve_loop svc rows ([], []))) \<and> u = w_id w
                  \<and> v \<in> set (referenced_works w))
        \<and> (separated (fst (resolve_loop svc rows ([], []))) rows \<longrightarrow>
             (\<forall>k\<in>selected rows. map_of (fst (resolve_loop svc rows ([], []))) k = None \<longrightarrow>
                (\<forall>(u, v)\<in>set (edges G). u \<noteq> unresolved_id k \<and> v \<noteq> unresolved_id k)
                \<and> (\<forall>(a, b)\<in>set er. a \<noteq> k \<and> b \<noteq> k)))"
      by (rule conjI)
  qed
  from unresolved_id_inj [of m n] a b c show ?thesis
    by (intro conjI)
qed

text \<open>
  A run with a citation from reference 1 to reference 2 and an unresolved reference 3.
\<close>

definition mixed_service :: service where
  "mixed_service =
     \<lparr>by_doi = (\<lambda>r. None),
      by_search = (\<lambda>r. if ref_no r = 1
         then Some \<lparr>w_id = asc ''W1'', w_title = [], w_year = None, w_doi = [],
                     referenced_works = [asc ''W2'', asc ''W9'']\<rparr>
         else if ref_no r = 2
         then Some \<lparr>w_id = asc ''W2'', w_title = [], w_year = None, w_doi = [],
                     referenced_works = []\<rparr>
         else None)\<rparr>"

definition mixed_rows :: "row list" where
  "mixed_rows =
     cite_rows @ [\<lparr>ref_no = 3, rtf_order = 3, raw = asc ''c'', doi = None, title = asc ''c'',
                    pub_year_guess = None\<rparr>]"

definition mixed_graph :: digraph where
  "mixed_graph =
     \<lparr>nodes = [(asc ''W1'', Some \<lparr>a_ref_no = 1, a_rtf_order = 1, a_pub_year = Some 2010,
                                  a_doi = [], a_title = asc ''a 2010''\<rparr>),
               (asc ''W2'', Some \<lparr>a_ref_no = 2, a_rtf_order = 2, a_pub_year = Some 2015,
                                  a_doi = [], a_title = asc ''b 2015''\<rparr>),
               (asc ''UNRESOLVED_REF_3'',
                  Some \<lparr>a_ref_no = 3, a_rtf_order = 3, a_pub_year = None,
                        a_doi = [], a_title = asc ''c''\<rparr>)],
      edges = [(asc ''W1'', asc ''W2'')]\<rparr>"

lemma mixed_resolve: "resolve_loop mixed_service mixed_rows ([], []) = (cite_resolved, [3])"
  by (simp add: mixed_service_def mixed_rows_def cite_rows_def cite_resolved_def fetch_def asc_def)

lemma mixed_build: "build_graph cite_resolved mixed_rows = Inr (mixed_graph, [(1, 2)])"
  by (simp add: mixed_rows_def cite_rows_def cite_resolved_def mixed_graph_def graph_defs asc_def)

lemma mixed_selected: "selected mixed_rows = {1, 2, 3}"
  by (auto simp: selected_def mixed_rows_def cite_rows_def)

lemma mixed_separated: "separated cite_resolved mixed_rows"
  by (simp add: separated_def mixed_selected)
     (simp add: cite_resolved_def unresolved_id_def str_int_def str_nat.simps asc_def)

text \<open>
  C2 at that run, whose identities are apart from the placeholder ids, and at the run of
  \<open>main\<close> on the text with two blocks numbered 1, whose reference stays unresolved.
\<close>

theorem placeholder_nodes_witness:
  "resolve_loop mixed_service mixed_rows ([], []) = (cite_resolved, [3])
   \<and> build_graph (fst (resolve_loop mixed_service mixed_rows ([], []))) mixed_rows
       = Inr (mixed_graph, [(1, 2)])
   \<and> separated (fst (resolve_loop mixed_service mixed_rows ([], []))) mixed_rows
   \<and> 3 \<in> selected mixed_rows \<and> map_of cite_resolved 3 = None
   \<and> edges mixed_graph = [(asc ''W1'', asc ''W2'')]
   \<and> unresolved_id 3 \<in> fst ` set (nodes mixed_graph)
   \<and> asc ''W1'' \<noteq> unresolved_id 3 \<and> asc ''W2'' \<noteq> unresolved_id 3
   \<and> (\<exists>R. main plain_ucd no_service dup_doc (asc ''1'') = Inr R \<and> unresolved_of R = [1]
          \<and> unresolved_id 1 \<in> fst ` set (nodes (graph R)))"
proof -
  have r: "resolve_loop mixed_service mixed_rows ([], []) = (cite_resolved, [3])"
    by (rule mixed_resolve)
  have b: "build_graph (fst (resolve_loop mixed_service mixed_rows ([], []))) mixed_rows
       = Inr (mixed_graph, [(1, 2)])"
    by (simp add: mixed_resolve mixed_build)
  have s: "separated (fst (resolve_loop mixed_service mixed_rows ([], []))) mixed_rows"
    by (simp add: mixed_resolve mixed_separated)
  have k: "3 \<in> selected mixed_rows" "map_of cite_resolved 3 = None"
    by (simp_all add: mixed_selected cite_resolved_def)
  have e: "edges mixed_graph = [(asc ''W1'', asc ''W2'')]"
    "unresolved_id 3 \<in> fst ` set (nodes mixed_graph)"
    by (simp_all add: mixed_graph_def unresolved_id_def str_int_def str_nat.simps asc_def)
  note t = placeholder_nodes [of 1 2 plain_ucd mixed_service dup_doc "asc ''1''" _ mixed_rows
      mixed_graph "[(1, 2)]"]
  from t [THEN conjunct2, THEN conjunct2, THEN conjunct2, THEN mp, OF b, THEN conjunct2, THEN mp, OF s]
  have "\<forall>k\<in>selected mixed_rows.
          map_of (fst (resolve_loop mixed_service mixed_rows ([], []))) k = None \<longrightarrow>
          (\<forall>(u, v)\<in>set (edges mixed_graph). u \<noteq> unresolved_id k \<and> v \<noteq> unresolved_id k)
          \<and> (\<forall>(a, b)\<in>set [(1, 2)]. a \<noteq> k \<and> b \<noteq> k)" .
  with k have "\<forall>(u, v)\<in>set (edges mixed_graph). u \<noteq> unresolved_id 3 \<and> v \<noteq> unresolved_id 3"
    unfolding mixed_resolve fst_conv by blast
  then have w: "asc ''W1'' \<noteq> unresolved_id 3 \<and> asc ''W2'' \<noteq> unresolved_id 3"
    unfolding e by simp
  have m: "\<exists>R. main plain_ucd no_service dup_doc (asc ''1'') = Inr R \<and> unresolved_of R = [1]
          \<and> unresolved_id 1 \<in> fst ` set (nodes (graph R))"
    unfolding dup_main by (simp add: unresolved_id_def str_int_def str_nat.simps asc_def)
  from r b s k e w m show ?thesis by blast
qed

text \<open>
  Two services whose answers coincide with a placeholder id. Reference 2 stays
  unresolved in both. With \<open>clash_service\<close> the record of reference 1 lists
  \<open>UNRESOLVED_REF_2\<close> among its referenced works; with \<open>alias_service\<close> that
  string is also the identity of the record.
\<close>

definition clash_service :: service where
  "clash_service =
     \<lparr>by_doi = (\<lambda>r. None),
      by_search = (\<lambda>r. if ref_no r = 1
         then Some \<lparr>w_id = asc ''W1'', w_title = [], w_year = None, w_doi = [],
                     referenced_works = [asc ''UNRESOLVED_REF_2'']\<rparr>
         else None)\<rparr>"

definition alias_service :: service where
  "alias_service =
     \<lparr>by_doi = (\<lambda>r. None),
      by_search = (\<lambda>r. if ref_no r = 1
         then Some \<lparr>w_id = asc ''UNRESOLVED_REF_2'', w_title = [], w_year = None, w_doi = [],
                     referenced_works = [asc ''UNRESOLVED_REF_2'']\<rparr>
         else None)\<rparr>"

lemma clash_unresolved:
  "snd (resolve_loop clash_service cite_rows ([], [])) = [2]"
  "snd (resolve_loop alias_service cite_rows ([], [])) = [2]"
  by (simp_all add: clash_service_def alias_service_def cite_rows_def fetch_def asc_def)

lemma clash_edges:
  "\<exists>G. build_graph (fst (resolve_loop clash_service cite_rows ([], []))) cite_rows = Inr (G, [(1, 2)])
        \<and> edges G = [(asc ''W1'', unresolved_id 2)]"
  by (simp add: clash_service_def cite_rows_def fetch_def graph_defs asc_def)

lemma alias_edges:
  "\<exists>G. build_graph (fst (resolve_loop alias_service cite_rows ([], []))) cite_rows = Inr (G, [(2, 2)])
        \<and> edges G = [(unresolved_id 2, unresolved_id 2)]"
  by (simp add: alias_service_def cite_rows_def fetch_def graph_defs asc_def)

text \<open>
  C2 as stated fails: the identities are compared as strings, and nothing keeps an
  identity of the service apart from a placeholder id. With \<open>clash_service\<close> the
  listed string is taken for the placeholder node of reference 2, and an edge from
  reference 1 to the unresolved reference 2 is built. With \<open>alias_service\<close> the
  placeholder node of reference 2 is the start of an edge, and the table of the edges
  names the unresolved reference 2 as the citing one.
\<close>

theorem placeholder_counterexample:
  "snd (resolve_loop clash_service cite_rows ([], [])) = [2]
   \<and> (\<exists>G. build_graph (fst (resolve_loop clash_service cite_rows ([], []))) cite_rows
            = Inr (G, [(1, 2)])
          \<and> edges G = [(asc ''W1'', unresolved_id 2)])
   \<and> snd (resolve_loop alias_service cite_rows ([], [])) = [2]
   \<and> (\<exists>G. build_graph (fst (resolve_loop alias_service cite_rows ([], []))) cite_rows
            = Inr (G, [(2, 2)])
          \<and> edges G = [(unresolved_id 2, unresolved_id 2)])"
  using clash_unresolved clash_edges alias_edges by (intro conjI)

section \<open>The best-known years and the consistency checker\<close>

text \<open>
  The best-known year of a reference, in the words of the specification: the
  publication year prefers the year of the resolved record and falls back to the
  guessed year. \<open>guessed_year rows n\<close> is the guess in the row of the reference \<open>n\<close>,
  \<open>best_year resolved rows n\<close> the year of the record that \<open>resolved\<close> holds for \<open>n\<close>
  when there is one and it has a year other than 0, and the guessed year otherwise.
\<close>

definition guessed_year :: "row list \<Rightarrow> int \<Rightarrow> int option" where
  "guessed_year rows n =
     (case find (\<lambda>r. ref_no r = n) rows of None \<Rightarrow> None | Some r \<Rightarrow> pub_year_guess r)"

definition best_year :: "(int \<times> OAWork) list \<Rightarrow> row list \<Rightarrow> int \<Rightarrow> int option" where
  "best_year resolved rows n =
     (case map_of resolved n of
        None \<Rightarrow> guessed_year rows n
      | Some w \<Rightarrow>
          (case w_year w of
             None \<Rightarrow> guessed_year rows n
           | Some y \<Rightarrow> if y = 0 then guessed_year rows n else Some y))"

lemma find_append_case:
  "find P (xs @ ys) = (case find P xs of None \<Rightarrow> find P ys | Some x \<Rightarrow> Some x)"
  by (induction xs) simp_all

lemma find_rev_distinct:
  "distinct (map f xs) \<Longrightarrow> find (\<lambda>x. f x = n) (rev xs) = find (\<lambda>x. f x = n) xs"
proof (induction xs)
  case Nil
  show ?case by simp
next
  case (Cons x xs)
  show ?case
  proof (cases "f x = n")
    case True
    with Cons.prems have "\<forall>y\<in>set xs. f y \<noteq> n" by (auto simp: image_iff)
    then have "find (\<lambda>x. f x = n) (rev xs) = None"
      by (simp add: find_None_iff)
    with True show ?thesis by (simp add: find_append_case)
  next
    case False
    with Cons show ?thesis
      by (simp add: find_append_case split: option.splits)
  qed
qed

lemma guess_table:
  "map_of (fold (\<lambda>r d. AList.update (ref_no r) (pub_year_guess r) d) rows d) n
     = (case find (\<lambda>r. ref_no r = n) (rev rows) of
          None \<Rightarrow> map_of d n
        | Some r \<Rightarrow> Some (pub_year_guess r))"
proof (induction rows arbitrary: d)
  case Nil
  show ?case by simp
next
  case (Cons r rs)
  show ?case
    using Cons.IH [of "AList.update (ref_no r) (pub_year_guess r) d"]
    by (simp add: find_append_case update_conv' split: option.splits)
qed

lemma year_table:
  "distinct (map fst xs) \<Longrightarrow>
     map_of (fold (\<lambda>(n, w) d. if truthy_year (w_year w) then AList.update n (w_year w) d else d) xs d) n
       = (case map_of xs n of
            None \<Rightarrow> map_of d n
          | Some w \<Rightarrow> if truthy_year (w_year w) then Some (w_year w) else map_of d n)"
proof (induction xs arbitrary: d)
  case Nil
  show ?case by simp
next
  case (Cons x xs)
  obtain k w where x: "x = (k, w)" by (cases x)
  from Cons.prems x have k: "map_of xs k = None" and d: "distinct (map fst xs)"
    by (simp_all add: map_of_eq_None_iff)
  show ?case
    unfolding x using Cons.IH [OF d, of "if truthy_year (w_year w) then AList.update k (w_year w) d else d"] k
    by (cases "n = k") (simp_all add: update_conv' split: option.splits)
qed

lemma get_year_best_year:
  assumes "distinct (map ref_no rows)" and "distinct (map fst resolved)"
  shows "get_year (build_year_by_ref rows resolved) n = best_year resolved rows n"
proof -
  have g: "map_of (fold (\<lambda>r d. AList.update (ref_no r) (pub_year_guess r) d) rows []) n
      = map_option pub_year_guess (find (\<lambda>r. ref_no r = n) rows)"
    by (simp add: guess_table find_rev_distinct [OF assms(1)] split: option.splits)
  show ?thesis
    unfolding get_year_def build_year_by_ref_def year_table [OF assms(2)] g
    by (auto simp: best_year_def guessed_year_def truthy_year_def split: option.splits)
qed

lemma best_year_no_zero:
  assumes "\<And>r. r \<in> set rows \<Longrightarrow> pub_year_guess r \<noteq> Some 0"
  shows "best_year resolved rows n \<noteq> Some 0"
proof -
  have "guessed_year rows n \<noteq> Some 0"
    using assms by (auto simp: guessed_year_def find_Some_iff split: option.splits)
  then show ?thesis
    by (auto simp: best_year_def split: option.splits)
qed

lemma run_best_year:
  assumes "run_chosen U svc refs chosen = Inr R" and "distinct chosen"
  shows "get_year (build_year_by_ref (rows_of R) (resolved_of R)) n
           = best_year (resolved_of R) (rows_of R) n"
proof -
  note f = run_chosen_fields [OF assms(1)]
  from f have rows: "map_err (make_row U (build_ref_map refs)) chosen = Inr (rows_of R)" by simp
  from rows_ref_nos [OF rows] assms(2) have a: "distinct (map ref_no (rows_of R))" by simp
  from f have "resolved_of R = fst (resolve_loop svc (rows_of R) ([], []))" by simp
  then have b: "distinct (map fst (resolved_of R))"
    using resolve_loop_distinct [of "[]" svc "rows_of R" "[]"] by simp
  from a b show ?thesis by (rule get_year_best_year)
qed

lemma run_violations:
  assumes "run_chosen U svc refs chosen = Inr R" and "distinct chosen"
  shows "(a, b, ya, yb) \<in> set (violations R) \<longleftrightarrow>
           (a, b) \<in> set (edges_rows_of R)
           \<and> best_year (resolved_of R) (rows_of R) a = Some ya
           \<and> best_year (resolved_of R) (rows_of R) b = Some yb
           \<and> ya < yb"
proof -
  note f = run_chosen_fields [OF assms(1)]
  from f have rows: "map_err (make_row U (build_ref_map refs)) chosen = Inr (rows_of R)" by simp
  have nz: "\<And>n. best_year (resolved_of R) (rows_of R) n \<noteq> Some 0"
    by (rule best_year_no_zero) (rule rows_guess_no_zero [OF rows])
  from f have "violations R
      = check_edges (build_year_by_ref (rows_of R) (resolved_of R)) (edges_rows_of R)" by simp
  then show ?thesis
    using nz [of a] nz [of b]
    by (auto simp: check_edges_member run_best_year [OF assms])
qed

lemma main_violations:
  assumes "main U svc rtf select = Inr R"
  shows "(a, b, ya, yb) \<in> set (violations R) \<longleftrightarrow>
           (a, b) \<in> set (edges_rows_of R)
           \<and> best_year (resolved_of R) (rows_of R) a = Some ya
           \<and> best_year (resolved_of R) (rows_of R) b = Some yb
           \<and> ya < yb"
proof -
  from main_run_chosen [OF assms] obtain refs chosen where
    p: "parse_selection U select (set (map fst (build_ref_map refs))) = Inr chosen"
    and r: "run_chosen U svc refs chosen = Inr R" by blast
  from r parse_selection_distinct [OF p] show ?thesis by (rule run_violations)
qed


text \<open>
  Two runs on the references of the run above in which the service gives years. In the
  first the record of reference 1 has the year 2020, against the guessed year 2010, and
  the record of reference 2 has none. In the second the record of reference 1 has the
  year 0, which counts as no year, and the record of reference 2 has the year 2030,
  against the guessed year 2015.
\<close>

definition dated_service :: "int option \<Rightarrow> int option \<Rightarrow> service" where
  "dated_service y1 y2 =
     \<lparr>by_doi = (\<lambda>r. None),
      by_search = (\<lambda>r. if ref_no r = 1
         then Some \<lparr>w_id = asc ''W1'', w_title = [], w_year = y1, w_doi = [],
                     referenced_works = [asc ''W2'']\<rparr>
         else Some \<lparr>w_id = asc ''W2'', w_title = [], w_year = y2, w_doi = [],
                     referenced_works = []\<rparr>)\<rparr>"

definition dated_resolved :: "int option \<Rightarrow> int option \<Rightarrow> (int \<times> OAWork) list" where
  "dated_resolved y1 y2 =
     [(1, \<lparr>w_id = asc ''W1'', w_title = [], w_year = y1, w_doi = [],
            referenced_works = [asc ''W2'']\<rparr>),
      (2, \<lparr>w_id = asc ''W2'', w_title = [], w_year = y2, w_doi = [],
            referenced_works = []\<rparr>)]"

definition dated_graph :: "int \<Rightarrow> int \<Rightarrow> digraph" where
  "dated_graph y1 y2 =
     \<lparr>nodes = [(asc ''W1'', Some \<lparr>a_ref_no = 1, a_rtf_order = 1, a_pub_year = Some y1,
                                  a_doi = [], a_title = asc ''a 2010''\<rparr>),
               (asc ''W2'', Some \<lparr>a_ref_no = 2, a_rtf_order = 2, a_pub_year = Some y2,
                                  a_doi = [], a_title = asc ''b 2015''\<rparr>)],
      edges = [(asc ''W1'', asc ''W2'')]\<rparr>"

definition early_result :: run where
  "early_result =
     \<lparr>refs_found = 2, chosen_ref_nos = [1, 2], rows_of = cite_rows,
      resolved_of = dated_resolved (Some 2020) None, unresolved_of = [],
      graph = dated_graph 2020 2015, edges_rows_of = [(1, 2)], violations = []\<rparr>"

definition late_result :: run where
  "late_result =
     \<lparr>refs_found = 2, chosen_ref_nos = [1, 2], rows_of = cite_rows,
      resolved_of = dated_resolved (Some 0) (Some 2030), unresolved_of = [],
      graph = dated_graph 2010 2030, edges_rows_of = [(1, 2)],
      violations = [(1, 2, 2010, 2030)]\<rparr>"

lemma dated_resolve:
  "resolve_loop (dated_service y1 y2) cite_rows ([], []) = (dated_resolved y1 y2, [])"
  by (simp add: dated_service_def cite_rows_def dated_resolved_def fetch_def asc_def)

lemma early_build:
  "build_graph (dated_resolved (Some 2020) None) cite_rows = Inr (dated_graph 2020 2015, [(1, 2)])"
  by (simp add: cite_rows_def dated_resolved_def dated_graph_def graph_defs asc_def)

lemma late_build:
  "build_graph (dated_resolved (Some 0) (Some 2030)) cite_rows
     = Inr (dated_graph 2010 2030, [(1, 2)])"
  by (simp add: cite_rows_def dated_resolved_def dated_graph_def graph_defs asc_def)

lemma early_years:
  "build_year_by_ref cite_rows (dated_resolved (Some 2020) None) = [(1, Some 2020), (2, Some 2015)]"
  by (simp add: cite_rows_def dated_resolved_def build_year_by_ref_def truthy_year_def)

lemma late_years:
  "build_year_by_ref cite_rows (dated_resolved (Some 0) (Some 2030))
     = [(1, Some 2010), (2, Some 2030)]"
  by (simp add: cite_rows_def dated_resolved_def build_year_by_ref_def truthy_year_def)

lemma early_run:
  "run_chosen U (dated_service (Some 2020) None) cite_refs [1, 2] = Inr early_result"
  by (simp only: run_chosen_def cite_rows_made sum.case Let_def dated_resolve fst_conv snd_conv
        early_build prod.case early_years)
     (simp add: cite_refs_def get_year_def early_result_def)

lemma late_run:
  "run_chosen U (dated_service (Some 0) (Some 2030)) cite_refs [1, 2] = Inr late_result"
  by (simp only: run_chosen_def cite_rows_made sum.case Let_def dated_resolve fst_conv snd_conv
        late_build prod.case late_years)
     (simp add: cite_refs_def get_year_def late_result_def)

lemma early_best:
  "best_year (resolved_of early_result) (rows_of early_result) 1 = Some 2020"
  "best_year (resolved_of early_result) (rows_of early_result) 2 = Some 2015"
  by (simp_all add: early_result_def best_year_def guessed_year_def dated_resolved_def
      cite_rows_def)

lemma late_best:
  "best_year (resolved_of late_result) (rows_of late_result) 1 = Some 2010"
  "best_year (resolved_of late_result) (rows_of late_result) 2 = Some 2030"
  by (simp_all add: late_result_def best_year_def guessed_year_def dated_resolved_def
      cite_rows_def)

lemma cite_best:
  "best_year (resolved_of cite_result) (rows_of cite_result) 1 = Some 2010"
  "best_year (resolved_of cite_result) (rows_of cite_result) 2 = Some 2015"
  by (simp_all add: cite_result_def best_year_def guessed_year_def cite_resolved_def
      cite_rows_def)

definition cite_doc :: pystr where
  "cite_doc = asc ''[1] a 2010'' @ [10] @ asc ''[2] b 2015''"

lemma cite_text: "rtf_to_text U cite_doc = Inr cite_doc"
  by (simp add: cite_doc_def text_defs char_defs)

lemma lazy_body_Cons:
  "lazy_body U (c # r) =
     (if lookahead U (c # r) then ([], c # r)
      else case lazy_body U r of (b, t) \<Rightarrow> (c # b, t))"
  by (simp add: case_prod_unfold)

lemma cite_segments: "split_numbered_refs U cite_doc = Inr cite_refs"
  by (simp add: cite_doc_def cite_refs_def seg_defs asc_def py_strip_def startswith_def char_defs
      lazy_body_Cons del: lazy_body.simps(2))

lemma cite_select:
  "parse_selection U (asc ''all'') (set (map fst (build_ref_map cite_refs))) = Inr [1, 2]"
proof -
  have a: "set (map fst (build_ref_map cite_refs)) = {1, 2}"
    by (simp add: cite_refs_def build_ref_map_def)
  have b: "sorted_list_of_set {1, 2 :: int} = [1, 2]"
    by (rule sorted_list_of_set_eqI) auto
  have l: "py_lower U (py_strip (asc ''all'')) = asc ''all''"
    by (simp add: py_lower_def py_strip_def asc_def char_defs)
  show ?thesis
    unfolding a parse_selection_def l b by simp
qed

lemma late_main: "main U (dated_service (Some 0) (Some 2030)) cite_doc (asc ''all'') = Inr late_result"
proof -
  have "cite_refs \<noteq> []" by (simp add: cite_refs_def)
  then show ?thesis
    by (simp only: main_def cite_text cite_segments cite_select late_run sum.case if_False)
qed


lemma early_main:
  "main U (dated_service (Some 2020) None) cite_doc (asc ''all'') = Inr early_result"
proof -
  have "cite_refs \<noteq> []" by (simp add: cite_refs_def)
  then show ?thesis
    by (simp only: main_def cite_text cite_segments cite_select early_run sum.case if_False)
qed

text \<open>
  C8: the best-known year of a reference is the year of its resolved record when the
  reference is resolved and the record has a year other than 0, and the year guessed
  from its text otherwise; \<open>year_by_ref\<close> holds exactly these years. In a run a tuple
  \<open>(a, b, ya, yb)\<close> is among the violations exactly when \<open>(a, b)\<close> is a row of the
  edges, the best-known years of both ends are known, \<open>ya\<close> for \<open>a\<close> and \<open>yb\<close> for
  \<open>b\<close>, and \<open>ya < yb\<close>. The check cannot stop a run and leaves the graph and the rows
  of the edges as they were built. With the years 2010 and 2015 the edge from 1 to 2 is
  the one violation, with 2020 and 2015 there is none; a resolved year 2020 beside the
  guessed year 2010 clears the violation, and a resolved year 2030 beside the guessed
  year 2015 is the one reported.
\<close>

theorem check_edges_violations:
  "(main U svc rtf select = Inr R \<longrightarrow>
      (\<forall>n. get_year (build_year_by_ref (rows_of R) (resolved_of R)) n
             = best_year (resolved_of R) (rows_of R) n)
      \<and> ((a, b, ya, yb) \<in> set (violations R) \<longleftrightarrow>
           (a, b) \<in> set (edges_rows_of R)
           \<and> best_year (resolved_of R) (rows_of R) a = Some ya
           \<and> best_year (resolved_of R) (rows_of R) b = Some yb
           \<and> ya < yb))
   \<and> (run_chosen U svc refs chosen = Inr R' \<and> distinct chosen \<longrightarrow>
        (\<forall>n. get_year (build_year_by_ref (rows_of R') (resolved_of R')) n
               = best_year (resolved_of R') (rows_of R') n)
        \<and> ((a, b, ya, yb) \<in> set (violations R') \<longleftrightarrow>
             (a, b) \<in> set (edges_rows_of R')
             \<and> best_year (resolved_of R') (rows_of R') a = Some ya
             \<and> best_year (resolved_of R') (rows_of R') b = Some yb
             \<and> ya < yb))
   \<and> (distinct (map ref_no rows') \<and> distinct (map fst resolved) \<longrightarrow>
        get_year (build_year_by_ref rows' resolved) m = best_year resolved rows' m)
   \<and> ((a, b, ya, yb) \<in> set (check_edges d es) \<longleftrightarrow>
        (a, b) \<in> set es \<and> get_year d a = Some ya \<and> get_year d b = Some yb
        \<and> ya \<noteq> 0 \<and> yb \<noteq> 0 \<and> ya < yb)
   \<and> (map_err (make_row U (build_ref_map refs)) chosen = Inr rows
        \<and> build_graph (fst (resolve_loop svc rows ([], []))) rows = Inr (G, er) \<longrightarrow>
        (\<exists>R. run_chosen U svc refs chosen = Inr R \<and> graph R = G \<and> edges_rows_of R = er
           \<and> violations R
              = check_edges (build_year_by_ref rows (fst (resolve_loop svc rows ([], [])))) er))
   \<and> check_edges [(1, Some 2010), (2, Some 2015)] [(1, 2)] = [(1, 2, 2010, 2015)]
   \<and> check_edges [(1, Some 2020), (2, Some 2015)] [(1, 2)] = []
   \<and> (\<exists>R. run_chosen U (dated_service (Some 2020) None) cite_refs [1, 2] = Inr R
          \<and> map pub_year_guess (rows_of R) = [Some 2010, Some 2015]
          \<and> map (w_year \<circ> snd) (resolved_of R) = [Some 2020, None]
          \<and> edges_rows_of R = [(1, 2)] \<and> violations R = [])
   \<and> (\<exists>R. run_chosen U (dated_service (Some 0) (Some 2030)) cite_refs [1, 2] = Inr R
          \<and> map pub_year_guess (rows_of R) = [Some 2010, Some 2015]
          \<and> map (w_year \<circ> snd) (resolved_of R) = [Some 0, Some 2030]
          \<and> edges_rows_of R = [(1, 2)] \<and> violations R = [(1, 2, 2010, 2030)])"
proof -
  have m: "main U svc rtf select = Inr R \<longrightarrow>
      (\<forall>n. get_year (build_year_by_ref (rows_of R) (resolved_of R)) n
             = best_year (resolved_of R) (rows_of R) n)
      \<and> ((a, b, ya, yb) \<in> set (violations R) \<longleftrightarrow>
           (a, b) \<in> set (edges_rows_of R)
           \<and> best_year (resolved_of R) (rows_of R) a = Some ya
           \<and> best_year (resolved_of R) (rows_of R) b = Some yb
           \<and> ya < yb)"
  proof
    assume h: "main U svc rtf select = Inr R"
    from main_run_chosen [OF h] obtain refs' chosen' where
      p: "parse_selection U select (set (map fst (build_ref_map refs'))) = Inr chosen'"
      and r: "run_chosen U svc refs' chosen' = Inr R" by blast
    note d = parse_selection_distinct [OF p]
    show "(\<forall>n. get_year (build_year_by_ref (rows_of R) (resolved_of R)) n
             = best_year (resolved_of R) (rows_of R) n)
      \<and> ((a, b, ya, yb) \<in> set (violations R) \<longleftrightarrow>
           (a, b) \<in> set (edges_rows_of R)
           \<and> best_year (resolved_of R) (rows_of R) a = Some ya
           \<and> best_year (resolved_of R) (rows_of R) b = Some yb
           \<and> ya < yb)"
      using run_best_year [OF r d] run_violations [OF r d, of a b ya yb] by blast
  qed
  have r: "run_chosen U svc refs chosen = Inr R' \<and> distinct chosen \<longrightarrow>
        (\<forall>n. get_year (build_year_by_ref (rows_of R') (resolved_of R')) n
               = best_year (resolved_of R') (rows_of R') n)
        \<and> ((a, b, ya, yb) \<in> set (violations R') \<longleftrightarrow>
             (a, b) \<in> set (edges_rows_of R')
             \<and> best_year (resolved_of R') (rows_of R') a = Some ya
             \<and> best_year (resolved_of R') (rows_of R') b = Some yb
             \<and> ya < yb)"
    using run_best_year [of U svc refs chosen R'] run_violations [of U svc refs chosen R' a b ya yb]
    by blast
  have t: "distinct (map ref_no rows') \<and> distinct (map fst resolved) \<longrightarrow>
        get_year (build_year_by_ref rows' resolved) m = best_year resolved rows' m"
    using get_year_best_year [of rows' resolved m] by blast
  have e1: "\<exists>R. run_chosen U (dated_service (Some 2020) None) cite_refs [1, 2] = Inr R
          \<and> map pub_year_guess (rows_of R) = [Some 2010, Some 2015]
          \<and> map (w_year \<circ> snd) (resolved_of R) = [Some 2020, None]
          \<and> edges_rows_of R = [(1, 2)] \<and> violations R = []"
    using early_run [of U]
    by (simp add: early_result_def cite_rows_def dated_resolved_def)
  have e2: "\<exists>R. run_chosen U (dated_service (Some 0) (Some 2030)) cite_refs [1, 2] = Inr R
          \<and> map pub_year_guess (rows_of R) = [Some 2010, Some 2015]
          \<and> map (w_year \<circ> snd) (resolved_of R) = [Some 0, Some 2030]
          \<and> edges_rows_of R = [(1, 2)] \<and> violations R = [(1, 2, 2010, 2030)]"
    using late_run [of U]
    by (simp add: late_result_def cite_rows_def dated_resolved_def)
  have c: "check_edges [(1, Some 2010), (2, Some 2015)] [(1, 2)] = [(1, 2, 2010, 2015)]"
    "check_edges [(1, Some 2020), (2, Some 2015)] [(1, 2)] = []"
    using check_examples by (simp_all add: years_10_15_def years_20_15_def)
  note k = check_edges_member [of a b ya yb d es]
  note u = run_chosen_total [of U refs chosen rows svc G er]
  from u have u': "map_err (make_row U (build_ref_map refs)) chosen = Inr rows
        \<and> build_graph (fst (resolve_loop svc rows ([], []))) rows = Inr (G, er) \<longrightarrow>
        (\<exists>R. run_chosen U svc refs chosen = Inr R \<and> graph R = G \<and> edges_rows_of R = er
           \<and> violations R
              = check_edges (build_year_by_ref rows (fst (resolve_loop svc rows ([], [])))) er)"
    by blast
  show ?thesis
    by (intro conjI m r t k u' c e1 e2)
qed

text \<open>
  C8 at the run in which the record of reference 2 has the year 2030: the guessed
  years are 2010 and 2015, the best-known years 2010 and 2030, and the edge from 1 to
  2 is a violation with these.
\<close>

theorem check_edges_violations_witness:
  "main plain_ucd (dated_service (Some 0) (Some 2030)) cite_doc (asc ''all'') = Inr late_result
   \<and> run_chosen plain_ucd (dated_service (Some 0) (Some 2030)) cite_refs [1, 2] = Inr late_result
   \<and> distinct [1, 2 :: int]
   \<and> distinct (map ref_no (rows_of late_result))
   \<and> distinct (map fst (resolved_of late_result))
   \<and> map_err (make_row plain_ucd (build_ref_map cite_refs)) [1, 2] = Inr cite_rows
   \<and> build_graph (fst (resolve_loop (dated_service (Some 0) (Some 2030)) cite_rows ([], [])))
         cite_rows = Inr (dated_graph 2010 2030, [(1, 2)])
   \<and> map pub_year_guess (rows_of late_result) = [Some 2010, Some 2015]
   \<and> map (w_year \<circ> snd) (resolved_of late_result) = [Some 0, Some 2030]
   \<and> get_year (build_year_by_ref (rows_of late_result) (resolved_of late_result)) 1 = Some 2010
   \<and> get_year (build_year_by_ref (rows_of late_result) (resolved_of late_result)) 2 = Some 2030
   \<and> best_year (resolved_of late_result) (rows_of late_result) 1 = Some 2010
   \<and> best_year (resolved_of late_result) (rows_of late_result) 2 = Some 2030
   \<and> (1, 2) \<in> set (edges_rows_of late_result)
   \<and> (1, 2, 2010, 2030) \<in> set (violations late_result)"
proof -
  have a: "main plain_ucd (dated_service (Some 0) (Some 2030)) cite_doc (asc ''all'') = Inr late_result"
    by (rule late_main)
  have r: "run_chosen plain_ucd (dated_service (Some 0) (Some 2030)) cite_refs [1, 2] = Inr late_result"
    by (rule late_run)
  have d: "distinct [1, 2 :: int]" by simp
  have d': "distinct (map ref_no (rows_of late_result))" "distinct (map fst (resolved_of late_result))"
    by (simp_all add: late_result_def cite_rows_def dated_resolved_def)
  have w: "map_err (make_row plain_ucd (build_ref_map cite_refs)) [1, 2] = Inr cite_rows"
    by (rule cite_rows_made)
  have b: "build_graph (fst (resolve_loop (dated_service (Some 0) (Some 2030)) cite_rows ([], [])))
         cite_rows = Inr (dated_graph 2010 2030, [(1, 2)])"
    by (simp add: dated_resolve late_build)
  have g: "map pub_year_guess (rows_of late_result) = [Some 2010, Some 2015]"
    "map (w_year \<circ> snd) (resolved_of late_result) = [Some 0, Some 2030]"
    by (simp_all add: late_result_def cite_rows_def dated_resolved_def)
  have e: "(1, 2) \<in> set (edges_rows_of late_result)"
    by (simp add: late_result_def)
  note by1 = late_best(1) and by2 = late_best(2)
  note t = check_edges_violations [where U = plain_ucd
      and svc = "dated_service (Some 0) (Some 2030)" and rtf = cite_doc and select = "asc ''all''"
      and R = late_result and R' = late_result and refs = cite_refs and chosen = "[1, 2]"
      and a = 1 and b = 2 and ya = 2010 and yb = 2030
      and rows' = "rows_of late_result" and resolved = "resolved_of late_result" and m = 1
      and d = "[]" and es = "[]" and rows = cite_rows and G = "dated_graph 2010 2030"
      and er = "[(1, 2)]"]
  from t [THEN conjunct1, THEN mp, OF a]
  have y: "\<forall>n. get_year (build_year_by_ref (rows_of late_result) (resolved_of late_result)) n
             = best_year (resolved_of late_result) (rows_of late_result) n"
    and v: "(1, 2, 2010, 2030) \<in> set (violations late_result) \<longleftrightarrow>
           (1, 2) \<in> set (edges_rows_of late_result)
           \<and> best_year (resolved_of late_result) (rows_of late_result) 1 = Some 2010
           \<and> best_year (resolved_of late_result) (rows_of late_result) 2 = Some 2030
           \<and> (2010 :: int) < 2030"
    by blast+
  from y by1 have y1:
    "get_year (build_year_by_ref (rows_of late_result) (resolved_of late_result)) 1 = Some 2010"
    by simp
  from y by2 have y2:
    "get_year (build_year_by_ref (rows_of late_result) (resolved_of late_result)) 2 = Some 2030"
    by simp
  from v e by1 by2 have x: "(1, 2, 2010, 2030) \<in> set (violations late_result)"
    by simp
  show ?thesis
    by (intro conjI a r d d' w b g y1 y2 by1 by2 e x)
qed

section \<open>The grammar of a selection\<close>

text \<open>
  The grammar of the selection expression, in the words of the specification and of
  the documentation of \<open>int\<close>, written without the loop of the resolver and without
  the scanner of \<open>int\<close>. An integer literal is, between optional blanks, an optional
  sign followed by a group of digits, in which single underscores may stand between
  two digits: \<open>digit_group\<close> holds of a text that is not empty, begins and ends with
  a digit, has only digits and underscores and no two underscores in a row.
  \<open>int_literal U s\<close> is the number that the literal \<open>s\<close> writes, and nothing for a
  text that is no literal.
\<close>

definition trim_blanks :: "pystr \<Rightarrow> pystr" where
  "trim_blanks s = rev (dropWhile int_space (rev (dropWhile int_space s)))"

definition digit_group :: "ucd \<Rightarrow> pystr \<Rightarrow> bool" where
  "digit_group U b =
     (b \<noteq> [] \<and> is_digit U (hd b) \<and> is_digit U (last b)
      \<and> list_all (\<lambda>c. is_digit U c \<or> c = 95) b
      \<and> \<not> list_ex (\<lambda>(c, d). c = 95 \<and> d = 95) (zip b (tl b)))"

definition int_literal :: "ucd \<Rightarrow> pystr \<Rightarrow> int option" where
  "int_literal U s =
     (let t = trim_blanks s;
          b = (if take 1 t = [45] \<or> take 1 t = [43] then drop 1 t else t);
          v = token_value U (filter (\<lambda>c. c \<noteq> 95) b)
      in if digit_group U b then Some (if take 1 t = [45] then - v else v) else None)"

text \<open>
  A token is a single integer or a range. \<open>token_range U p\<close> is what the token \<open>p\<close>
  names: for a token with a minus sign (45), the numbers between the literal before
  its first minus sign and the literal after it, in either order; for a token without
  one, the number of the literal; nothing when a text that has to be a literal is none.
  A list of tokens is ill formed when one of them names nothing, and \<open>numbers\<close> is the
  set of all numbers that the tokens name. The tokens of an expression are the pieces
  between its commas, trimmed, without the blank ones, of the expression trimmed and
  in lower case.
\<close>

definition token_range :: "ucd \<Rightarrow> pystr \<Rightarrow> (int \<times> int) option" where
  "token_range U p =
     (if 45 \<in> set p then
        (case int_literal U (takeWhile (\<lambda>c. c \<noteq> 45) p) of
           None \<Rightarrow> None
         | Some a \<Rightarrow>
             (case int_literal U (tl (dropWhile (\<lambda>c. c \<noteq> 45) p)) of
                None \<Rightarrow> None
              | Some b \<Rightarrow> Some (min a b, max a b)))
      else (case int_literal U p of None \<Rightarrow> None | Some x \<Rightarrow> Some (x, x)))"

definition ill_formed :: "ucd \<Rightarrow> pystr list \<Rightarrow> bool" where
  "ill_formed U ps = list_ex (\<lambda>p. token_range U p = None) ps"

definition numbers :: "ucd \<Rightarrow> pystr list \<Rightarrow> int set" where
  "numbers U ps =
     \<Union> (set (map (\<lambda>p. case token_range U p of None \<Rightarrow> {} | Some (lo, hi) \<Rightarrow> {lo..hi}) ps))"

definition tokens :: "ucd \<Rightarrow> pystr \<Rightarrow> pystr list" where
  "tokens U sel = selection_parts (py_lower U (py_strip sel))"

text \<open>
  \<open>int\<close> accepts exactly the integer literals. \<open>digits_tail\<close> is what may follow a
  digit of a group.
\<close>

definition digits_tail :: "ucd \<Rightarrow> pystr \<Rightarrow> bool" where
  "digits_tail U r =
     ((r = [] \<or> is_digit U (last r))
      \<and> list_all (\<lambda>c. is_digit U c \<or> c = 95) r
      \<and> \<not> list_ex (\<lambda>(c, d). c = 95 \<and> d = 95) (zip r (tl r)))"

lemma underscore_no_digit: "\<not> is_digit U 95"
  by (simp add: is_digit_def digit_val_def)

lemma digit_of_val: "digit_val U c = Some v \<Longrightarrow> digit_of U c = v"
  by (simp add: digit_of_def)

lemma digits_tail_Nil: "digits_tail U []"
  by (simp add: digits_tail_def)

lemma digits_tail_single: "digits_tail U [c] \<longleftrightarrow> is_digit U c"
  by (auto simp: digits_tail_def)

lemma digits_tail_digit:
  "is_digit U c \<Longrightarrow> digits_tail U (c # r) \<longleftrightarrow> digits_tail U r"
proof -
  assume c: "is_digit U c"
  then have "c \<noteq> 95" using underscore_no_digit by auto
  then show ?thesis
    using c by (cases r) (auto simp: digits_tail_def)
qed

lemma digits_tail_no_digit:
  "\<not> is_digit U c \<Longrightarrow> c \<noteq> 95 \<Longrightarrow> \<not> digits_tail U (c # r)"
  by (auto simp: digits_tail_def)

lemma digits_tail_underscore:
  "digits_tail U (95 # d # r) \<longleftrightarrow> is_digit U d \<and> digits_tail U r"
proof (cases "is_digit U d")
  case True
  then have "d \<noteq> 95" using underscore_no_digit by auto
  with True show ?thesis
    by (cases r) (auto simp: digits_tail_def)
next
  case False
  then show ?thesis
    by (auto simp: digits_tail_def)
qed

lemma int_body_digits:
  "int_body U acc r =
     (if digits_tail U r
      then Some (foldl (\<lambda>a c. 10 * a + digit_of U c) acc (filter (\<lambda>c. c \<noteq> 95) r))
      else None)"
proof (induction U acc r rule: int_body.induct)
  case (1 U acc)
  show ?case by (simp add: digits_tail_Nil)
next
  case (2 U acc c)
  show ?case
  proof (cases "digit_val U c")
    case None
    then show ?thesis by (simp add: digits_tail_single is_digit_def)
  next
    case (Some v)
    then have "is_digit U c" by (simp add: is_digit_def)
    then have "c \<noteq> 95" using underscore_no_digit by auto
    with Some show ?thesis
      by (simp add: digits_tail_single is_digit_def digit_of_val)
  qed
next
  case (3 U acc c d r)
  show ?case
  proof (cases "c = 95")
    case True
    show ?thesis
    proof (cases "digit_val U d")
      case None
      with True show ?thesis by (simp add: digits_tail_underscore is_digit_def)
    next
      case (Some v)
      then have "is_digit U d" by (simp add: is_digit_def)
      then have "d \<noteq> 95" using underscore_no_digit by auto
      with True Some "3.IH"(1) [OF True Some] show ?thesis
        by (simp add: digits_tail_underscore is_digit_def digit_of_val)
    qed
  next
    case False
    show ?thesis
    proof (cases "digit_val U c")
      case None
      then have "\<not> is_digit U c" by (simp add: is_digit_def)
      from digits_tail_no_digit [OF this False] None False show ?thesis by simp
    next
      case (Some v)
      then have c: "is_digit U c" by (simp add: is_digit_def)
      from False Some "3.IH"(2) [OF False Some] show ?thesis
        by (simp add: digits_tail_digit [OF c] digit_of_val)
    qed
  qed
qed

lemma digit_group_Cons: "digit_group U (c # r) \<longleftrightarrow> is_digit U c \<and> digits_tail U r"
proof (cases "is_digit U c")
  case True
  then have "c \<noteq> 95" using underscore_no_digit by auto
  with True show ?thesis
    by (cases r) (auto simp: digit_group_def digits_tail_def)
next
  case False
  then show ?thesis by (simp add: digit_group_def)
qed

lemma body_literal:
  "(case b of [] \<Rightarrow> None
    | c # r \<Rightarrow> (case digit_val U c of None \<Rightarrow> None | Some v \<Rightarrow> int_body U v r))
   = (if digit_group U b
      then Some (foldl (\<lambda>a c. 10 * a + digit_of U c) 0 (filter (\<lambda>c. c \<noteq> 95) b))
      else None)"
proof (cases b)
  case Nil
  then show ?thesis by (simp add: digit_group_def)
next
  case (Cons c r)
  show ?thesis
  proof (cases "digit_val U c")
    case None
    with Cons show ?thesis by (simp add: digit_group_Cons is_digit_def)
  next
    case (Some v)
    then have "is_digit U c" by (simp add: is_digit_def)
    then have "c \<noteq> 95" using underscore_no_digit by auto
    with Cons Some show ?thesis
      by (simp add: digit_group_Cons is_digit_def int_body_digits digit_of_val)
  qed
qed

lemma int_unsigned_literal:
  "int_unsigned U s =
     (if digit_group U (rev (dropWhile int_space (rev s)))
      then Some (foldl (\<lambda>a c. 10 * a + digit_of U c) 0
                   (filter (\<lambda>c. c \<noteq> 95) (rev (dropWhile int_space (rev s)))))
      else None)"
  unfolding int_unsigned_def by (rule body_literal)

lemma trim_end_Cons:
  "\<not> P c \<Longrightarrow> rev (dropWhile P (rev (c # r))) = c # rev (dropWhile P (rev r))"
  by (simp add: dropWhile_append)

lemma py_int_literal:
  "py_int U s = (case int_literal U s of None \<Rightarrow> Inl InvalidLiteral | Some v \<Rightarrow> Inr v)"
proof (cases "dropWhile int_space s")
  case Nil
  show ?thesis
    unfolding py_int_def int_literal_def trim_blanks_def Nil
    by (simp add: digit_group_def)
next
  case (Cons c r)
  then have nc: "\<not> int_space c"
    by (metis dropWhile_eq_Cons_conv)
  note e = trim_end_Cons [of int_space c r, OF nc]
  have t: "trim_blanks s = c # rev (dropWhile int_space (rev r))"
    unfolding trim_blanks_def Cons by (rule e)
  show ?thesis
  proof (cases "c = 45 \<or> c = 43")
    case True
    then show ?thesis
      using Cons by (auto simp: py_int_def int_literal_def t int_unsigned_literal token_value_def)
  next
    case False
    have "int_unsigned U (c # r) =
        (if digit_group U (trim_blanks s)
         then Some (foldl (\<lambda>a c. 10 * a + digit_of U c) 0 (filter (\<lambda>c. c \<noteq> 95) (trim_blanks s)))
         else None)"
      unfolding int_unsigned_literal t e ..
    with False show ?thesis
      using Cons by (auto simp: py_int_def int_literal_def t token_value_def)
  qed
qed

lemma part_bounds_token_range: "part_bounds U p = token_range U p"
  by (simp add: part_bounds_def token_range_def py_int_literal drop_Suc split: option.splits)

lemma malformed_ill_formed: "malformed U ps = ill_formed U ps"
  by (simp add: malformed_def ill_formed_def part_bounds_token_range)

lemma named_numbers: "named U ps = numbers U ps"
  by (simp add: named_def numbers_def part_bounds_token_range)

lemma parse_selection_tokens:
  "parse_selection U sel A =
     (if py_lower U (py_strip sel) = asc ''all'' then Inr (sorted_list_of_set A)
      else if ill_formed U (tokens U sel) then Inl InvalidLiteral
      else if numbers U (tokens U sel) \<inter> A = {} then Inl NoSelection
      else Inr (sorted_list_of_set (numbers U (tokens U sel) \<inter> A)))"
  by (simp add: parse_selection_parts malformed_ill_formed named_numbers tokens_def)


text \<open>
  The pieces of a text between its commas: \<open>join_char d ps\<close> writes the pieces \<open>ps\<close>
  with the separator \<open>d\<close> between them, and the split at \<open>d\<close> gives back the pieces
  of any such writing whose pieces have no \<open>d\<close>.
\<close>

fun join_char :: "nat \<Rightarrow> pystr list \<Rightarrow> pystr" where
  "join_char d [] = []"
| "join_char d [p] = p"
| "join_char d (p # q # ps) = p @ d # join_char d (q # ps)"

lemma split_char_piece: "d \<notin> set p \<Longrightarrow> split_char d (p @ d # r) = p # split_char d r"
  by (induction p) auto

lemma split_char_join:
  "ps \<noteq> [] \<Longrightarrow> list_all (\<lambda>p. d \<notin> set p) ps \<Longrightarrow> split_char d (join_char d ps) = ps"
proof (induction d ps rule: join_char.induct)
  case (1 d)
  then show ?case by simp
next
  case (2 d p)
  then show ?case by (simp add: split_char_none)
next
  case (3 d p q ps)
  then show ?case by (simp add: split_char_piece)
qed

lemma tokens_pieces:
  assumes "ps \<noteq> []" and "list_all (\<lambda>p. 44 \<notin> set p) ps"
    and "py_lower U (py_strip sel) = join_char 44 ps"
  shows "tokens U sel = map py_strip (filter (\<lambda>p. py_strip p \<noteq> []) ps)"
  using split_char_join [OF assms(1, 2)] assms(3) by (simp add: tokens_def selection_parts_def)

text \<open>
  The cap of the interpreter on the digits of a literal, 4300 when it is on, is not
  part of \<open>py_int\<close>. A token of at most 4300 characters is below it, so the statements
  on all selections are made for such tokens and hold with the cap as without it.
\<close>

definition within_cap :: "pystr list \<Rightarrow> bool" where
  "within_cap ps = list_all (\<lambda>p. length p \<le> 4300) ps"

lemma sel_ignored_example: "parse_selection U (asc ''1,99'') {1, 2, 3} = Inr [1]"
  by (simp add: select_defs py_int_def int_unsigned_def asc_def py_strip_def char_defs)

lemma sel_negative_example: "parse_selection U (asc ''-3'') {- 3} = Inl InvalidLiteral"
  by (simp add: select_defs py_int_def int_unsigned_def asc_def py_strip_def char_defs)

lemma sel_blank_example: "parse_selection U (asc ''1,, ,2'') {1, 2} = Inr [1, 2]"
  by (simp add: select_defs py_int_def int_unsigned_def asc_def py_strip_def char_defs)

lemma sel_clipped_example: "parse_selection U (asc ''2-7'') {1, 2, 3} = Inr [2, 3]"
proof -
  have l: "py_lower U (py_strip (asc ''2-7'')) = asc ''2-7''"
    by (simp add: py_lower_def py_strip_def asc_def char_defs)
  have p: "selection_parts (asc ''2-7'') = [asc ''2-7'']"
    by (simp add: selection_parts_def py_strip_def asc_def char_defs)
  have b: "part_bounds U (asc ''2-7'') = Some (2, 7)"
    by (simp_all add: part_bounds_def py_int_def int_unsigned_def asc_def char_defs)
  have "named U [asc ''2-7''] = {2, 3, 4, 5, 6, 7}"
    by (simp add: named_def b set_upto [symmetric] del: set_upto)
  then have n: "named U [asc ''2-7''] \<inter> {1, 2, 3} = set [2, 3]"
    by auto
  have m: "\<not> malformed U [asc ''2-7'']"
    by (simp add: malformed_def b)
  have "sorted_list_of_set (named U [asc ''2-7''] \<inter> {1, 2, 3}) = [2, 3]"
    by (rule sorted_list_of_set_eqI) (simp_all add: n)
  then show ?thesis
    unfolding parse_selection_parts l p using m n by (simp add: asc_def)
qed

lemma literal_examples:
  "int_literal U (asc ''-3'') = Some (- 3)" "int_literal U (asc '' +1_0 '') = Some 10"
  "int_literal U (asc ''1__0'') = None" "int_literal U (asc ''- 3'') = None"
  "int_literal U (asc ''x'') = None" "int_literal U [] = None"
  by (simp_all add: int_literal_def trim_blanks_def digit_group_def token_value_def digit_of_def
      asc_def char_defs)

lemma range_examples:
  "token_range U (asc ''-3'') = None" "token_range U (asc ''5--3'') = Some (- 3, 5)"
  "token_range U (asc ''9-5'') = Some (5, 9)" "token_range U (asc ''12'') = Some (12, 12)"
  by (simp_all add: token_range_def int_literal_def trim_blanks_def digit_group_def
      token_value_def digit_of_def asc_def char_defs)

lemma tokens_examples:
  "tokens U (asc ''1,, ,2'') = [asc ''1'', asc ''2'']"
  "tokens U (asc '' 1,99 '') = [asc ''1'', asc ''99'']"
  by (simp_all add: tokens_def selection_parts_def py_lower_def py_strip_def asc_def char_defs)

lemma parse_selection_number:
  "parse_selection U (str_nat n) A = (if int n \<in> A then Inr [int n] else Inl NoSelection)"
proof -
  have "list_all range_char (str_nat n)"
    using str_nat_ascii [of n] by (auto simp: list_all_iff range_char_def)
  from range_text [OF this str_nat_nonempty] show ?thesis
    by (simp add: parse_selection_parts malformed_def named_def part_bounds_number)
qed

lemma parse_selection_result:
  assumes "parse_selection U sel A = Inr xs" and "finite A"
  shows "sorted xs \<and> distinct xs \<and> set xs \<subseteq> A"
proof (cases "py_lower U (py_strip sel) = asc ''all''")
  case True
  with assms show ?thesis by (auto simp: parse_selection_parts)
next
  case False
  then show ?thesis using parse_selection_sorted [OF assms(1)] by auto
qed


text \<open>
  C5: \<open>all\<close> (also with blanks around it and in capitals) gives the available
  numbers in ascending order. Any other selection whose tokens are all well formed
  gives, in ascending order and each once, exactly the numbers that its tokens name and
  that are available: a number that is not available is left out without an error,
  unless none is left. The result is always sorted, without repetition and within the
  available set. A token is a single integer or a range, the number \<open>n\<close> names \<open>n\<close>,
  the range \<open>m-n\<close> names the numbers between the two, in either order, and swapping
  the bounds of a range changes nothing. The three examples of the claim hold, and
  \<open>1,99\<close> and \<open>2-7\<close> on the numbers 1 to 3 give 1 and 2, 3. The tokens are the
  pieces of the comma-separated list, trimmed, without the blank ones.
\<close>

theorem parse_selection_grammar:
  "(within_cap (tokens U sel) \<longrightarrow>
      parse_selection U sel A =
        (if py_lower U (py_strip sel) = asc ''all'' then Inr (sorted_list_of_set A)
         else if ill_formed U (tokens U sel) then Inl InvalidLiteral
         else if numbers U (tokens U sel) \<inter> A = {} then Inl NoSelection
         else Inr (sorted_list_of_set (numbers U (tokens U sel) \<inter> A))))
   \<and> (parse_selection U sel A = Inr xs \<and> finite A \<longrightarrow> sorted xs \<and> distinct xs \<and> set xs \<subseteq> A)
   \<and> (within_cap (tokens U sel) \<and> parse_selection U sel A = Inr xs
        \<and> py_lower U (py_strip sel) \<noteq> asc ''all'' \<longrightarrow>
          sorted xs \<and> distinct xs \<and> set xs = numbers U (tokens U sel) \<inter> A)
   \<and> (length (str_nat n) \<le> 4300 \<longrightarrow>
        token_range U (str_nat n) = Some (int n, int n)
        \<and> parse_selection U (str_nat n) A = (if int n \<in> A then Inr [int n] else Inl NoSelection))
   \<and> (length (str_nat m) \<le> 4300 \<and> length (str_nat n) \<le> 4300 \<longrightarrow>
        token_range U (str_nat m @ 45 # str_nat n) = Some (min (int m) (int n), max (int m) (int n))
        \<and> parse_selection U (str_nat m @ 45 # str_nat n) A =
            (if {min (int m) (int n)..max (int m) (int n)} \<inter> A = {} then Inl NoSelection
             else Inr (sorted_list_of_set ({min (int m) (int n)..max (int m) (int n)} \<inter> A)))
        \<and> parse_selection U (str_nat m @ 45 # str_nat n) A
            = parse_selection U (str_nat n @ 45 # str_nat m) A)
   \<and> (45 \<notin> set a \<and> 45 \<notin> set b \<longrightarrow>
        token_range U (a @ 45 # b) = token_range U (b @ 45 # a)
        \<and> parse_part U A (a @ 45 # b) C = parse_part U A (b @ 45 # a) C)
   \<and> parse_selection U (asc ''1,3,5-9,12'') {1..12} = Inr [1, 3, 5, 6, 7, 8, 9, 12]
   \<and> parse_selection U (asc ''all'') {2, 4, 9} = Inr [2, 4, 9]
   \<and> parse_selection U (asc ''9-5'') {5, 6, 7, 8, 9} = Inr [5, 6, 7, 8, 9]
   \<and> parse_selection U (asc ''1,99'') {1, 2, 3} = Inr [1]
   \<and> parse_selection U (asc ''2-7'') {1, 2, 3} = Inr [2, 3]
   \<and> (ps \<noteq> [] \<and> list_all (\<lambda>p. 44 \<notin> set p) ps
        \<and> py_lower U (py_strip sel) = join_char 44 ps \<longrightarrow>
        tokens U sel = map py_strip (filter (\<lambda>p. py_strip p \<noteq> []) ps))"
proof -
  have a: "within_cap (tokens U sel) \<longrightarrow>
      parse_selection U sel A =
        (if py_lower U (py_strip sel) = asc ''all'' then Inr (sorted_list_of_set A)
         else if ill_formed U (tokens U sel) then Inl InvalidLiteral
         else if numbers U (tokens U sel) \<inter> A = {} then Inl NoSelection
         else Inr (sorted_list_of_set (numbers U (tokens U sel) \<inter> A)))"
    using parse_selection_tokens [of U sel A] by blast
  have b: "parse_selection U sel A = Inr xs \<and> finite A \<longrightarrow> sorted xs \<and> distinct xs \<and> set xs \<subseteq> A"
    using parse_selection_result [of U sel A xs] by blast
  have c: "within_cap (tokens U sel) \<and> parse_selection U sel A = Inr xs
        \<and> py_lower U (py_strip sel) \<noteq> asc ''all'' \<longrightarrow>
          sorted xs \<and> distinct xs \<and> set xs = numbers U (tokens U sel) \<inter> A"
    using parse_selection_sorted [of U sel A xs]
    by (simp add: named_numbers tokens_def)
  have d: "length (str_nat n) \<le> 4300 \<longrightarrow>
        token_range U (str_nat n) = Some (int n, int n)
        \<and> parse_selection U (str_nat n) A = (if int n \<in> A then Inr [int n] else Inl NoSelection)"
    using part_bounds_number [of U n] parse_selection_number [of U n A]
    by (simp add: part_bounds_token_range)
  have e: "length (str_nat m) \<le> 4300 \<and> length (str_nat n) \<le> 4300 \<longrightarrow>
        token_range U (str_nat m @ 45 # str_nat n) = Some (min (int m) (int n), max (int m) (int n))
        \<and> parse_selection U (str_nat m @ 45 # str_nat n) A =
            (if {min (int m) (int n)..max (int m) (int n)} \<inter> A = {} then Inl NoSelection
             else Inr (sorted_list_of_set ({min (int m) (int n)..max (int m) (int n)} \<inter> A)))
        \<and> parse_selection U (str_nat m @ 45 # str_nat n) A
            = parse_selection U (str_nat n @ 45 # str_nat m) A"
    using part_bounds_range [of U m n] parse_selection_range [of U m n A]
      parse_selection_range [of U n m A]
    by (simp add: part_bounds_token_range min.commute max.commute)
  have f: "45 \<notin> set a \<and> 45 \<notin> set b \<longrightarrow>
        token_range U (a @ 45 # b) = token_range U (b @ 45 # a)
        \<and> parse_part U A (a @ 45 # b) C = parse_part U A (b @ 45 # a) C"
    using part_bounds_swap [of a b U]
    by (simp add: parse_part_bounds part_bounds_token_range)
  have g: "ps \<noteq> [] \<and> list_all (\<lambda>p. 44 \<notin> set p) ps
        \<and> py_lower U (py_strip sel) = join_char 44 ps \<longrightarrow>
        tokens U sel = map py_strip (filter (\<lambda>p. py_strip p \<noteq> []) ps)"
    using tokens_pieces [of ps U sel] by blast
  show ?thesis
    by (intro conjI a b c d e f sel_list_example sel_all_example sel_reversed_example
        sel_ignored_example sel_clipped_example g)
qed

text \<open>
  C5 at \<open>1,99\<close> on the numbers 1 to 3, where 99 is left out, at \<open>ALL\<close> between
  blanks, and at the number 7 and the range \<open>9-5\<close>.
\<close>

theorem parse_selection_grammar_witness:
  "within_cap (tokens plain_ucd (asc '' 1,99 ''))
   \<and> py_lower plain_ucd (py_strip (asc '' 1,99 '')) \<noteq> asc ''all''
   \<and> tokens plain_ucd (asc '' 1,99 '') = [asc ''1'', asc ''99'']
   \<and> \<not> ill_formed plain_ucd (tokens plain_ucd (asc '' 1,99 ''))
   \<and> numbers plain_ucd (tokens plain_ucd (asc '' 1,99 '')) = {1, 99}
   \<and> parse_selection plain_ucd (asc '' 1,99 '') {1, 2, 3} = Inr [1]
   \<and> finite {1, 2, 3 :: int}
   \<and> sorted [1 :: int] \<and> distinct [1 :: int] \<and> set [1 :: int] \<subseteq> {1, 2, 3}
   \<and> within_cap (tokens plain_ucd (asc '' ALL ''))
   \<and> py_lower plain_ucd (py_strip (asc '' ALL '')) = asc ''all''
   \<and> parse_selection plain_ucd (asc '' ALL '') {2, 4, 9} = Inr [2, 4, 9]
   \<and> length (str_nat 7) \<le> 4300 \<and> length (str_nat 9) \<le> 4300 \<and> length (str_nat 5) \<le> 4300
   \<and> parse_selection plain_ucd (str_nat 7) {1, 2, 3} = Inl NoSelection
   \<and> parse_selection plain_ucd (str_nat 9 @ 45 # str_nat 5) {5, 6, 12}
       = parse_selection plain_ucd (str_nat 5 @ 45 # str_nat 9) {5, 6, 12}
   \<and> token_range plain_ucd (str_nat 9 @ 45 # str_nat 5) = Some (5, 9)
   \<and> 45 \<notin> set (asc ''9'') \<and> 45 \<notin> set (asc ''5'')
   \<and> token_range plain_ucd (asc ''9'' @ 45 # asc ''5'')
       = token_range plain_ucd (asc ''5'' @ 45 # asc ''9'')
   \<and> [asc ''1'', asc ''99''] \<noteq> []
   \<and> list_all (\<lambda>p. 44 \<notin> set p) [asc ''1'', asc ''99'']
   \<and> py_lower plain_ucd (py_strip (asc '' 1,99 '')) = join_char 44 [asc ''1'', asc ''99'']
   \<and> tokens plain_ucd (asc '' 1,99 '')
       = map py_strip (filter (\<lambda>p. py_strip p \<noteq> []) [asc ''1'', asc ''99''])"
proof -
  note t = parse_selection_grammar [where U = plain_ucd and sel = "asc '' 1,99 ''"
      and A = "{1, 2, 3}" and xs = "[1]" and n = 7 and m = 9 and a = "asc ''9''"
      and b = "asc ''5''" and C = "{}" and ps = "[asc ''1'', asc ''99'']"]
  note t' = parse_selection_grammar [where U = plain_ucd and sel = "asc '' ALL ''"
      and A = "{2, 4, 9}" and xs = "[2, 4, 9]" and n = 5 and m = 9 and a = "asc ''9''"
      and b = "asc ''5''" and C = "{}" and ps = "[]"]
  have k: "tokens plain_ucd (asc '' 1,99 '') = [asc ''1'', asc ''99'']"
    by (rule tokens_examples)
  have r: "token_range plain_ucd (asc ''1'') = Some (1, 1)"
    "token_range plain_ucd (asc ''99'') = Some (99, 99)"
    by (simp_all add: token_range_def int_literal_def trim_blanks_def digit_group_def
      token_value_def digit_of_def asc_def char_defs)
  have w: "within_cap (tokens plain_ucd (asc '' 1,99 ''))"
    unfolding k by (simp add: within_cap_def asc_def)
  have l: "py_lower plain_ucd (py_strip (asc '' 1,99 '')) \<noteq> asc ''all''"
    by (simp add: py_lower_def py_strip_def asc_def is_space_def)
  have i: "\<not> ill_formed plain_ucd (tokens plain_ucd (asc '' 1,99 ''))"
    unfolding k by (simp add: ill_formed_def r)
  have n: "numbers plain_ucd (tokens plain_ucd (asc '' 1,99 '')) = {1, 99}"
    unfolding k by (auto simp: numbers_def r)
  have ne: "numbers plain_ucd (tokens plain_ucd (asc '' 1,99 '')) \<inter> {1, 2, 3} = {1}"
    unfolding n by simp
  from t [THEN conjunct1, THEN mp, OF w]
  have p: "parse_selection plain_ucd (asc '' 1,99 '') {1, 2, 3} = Inr [1]"
    using l i ne by simp
  have fin: "finite {1, 2, 3 :: int}" by simp
  from t [THEN conjunct2, THEN conjunct1, THEN mp, OF conjI [OF p fin]]
  have s: "sorted [1 :: int] \<and> distinct [1 :: int] \<and> set [1 :: int] \<subseteq> {1, 2, 3}" .
  have k': "tokens plain_ucd (asc '' ALL '') = [asc ''all'']"
    by (simp add: tokens_def selection_parts_def py_lower_def py_strip_def asc_def char_defs)
  have w': "within_cap (tokens plain_ucd (asc '' ALL ''))"
    unfolding k' by (simp add: within_cap_def asc_def)
  have l': "py_lower plain_ucd (py_strip (asc '' ALL '')) = asc ''all''"
    by (simp add: py_lower_def py_strip_def asc_def is_space_def)
  have "sorted_list_of_set {2, 4, 9 :: int} = [2, 4, 9]"
    by simp
  with t' [THEN conjunct1, THEN mp, OF w'] l'
  have p': "parse_selection plain_ucd (asc '' ALL '') {2, 4, 9} = Inr [2, 4, 9]"
    by simp
  have len: "length (str_nat 7) \<le> 4300" "length (str_nat 9) \<le> 4300" "length (str_nat 5) \<le> 4300"
    by (simp_all add: str_nat.simps)
  from t [THEN conjunct2, THEN conjunct2, THEN conjunct2, THEN conjunct1, THEN mp, OF len(1)]
  have q: "parse_selection plain_ucd (str_nat 7) {1, 2, 3} = Inl NoSelection"
    by simp
  note t'' = parse_selection_grammar [where U = plain_ucd and sel = "asc '' ALL ''"
      and A = "{5, 6, 12}" and xs = "[]" and n = 5 and m = 9 and a = "asc ''9''"
      and b = "asc ''5''" and C = "{}" and ps = "[]"]
  note u = t'' [THEN conjunct2, THEN conjunct2, THEN conjunct2, THEN conjunct2,
      THEN conjunct1, THEN mp, OF conjI [OF len(2) len(3)]]
  from u have x: "parse_selection plain_ucd (str_nat 9 @ 45 # str_nat 5) {5, 6, 12}
       = parse_selection plain_ucd (str_nat 5 @ 45 # str_nat 9) {5, 6, 12}"
    by blast
  from u have y: "token_range plain_ucd (str_nat 9 @ 45 # str_nat 5) = Some (5, 9)"
    by simp
  have m: "45 \<notin> set (asc ''9'')" "45 \<notin> set (asc ''5'')"
    by (simp_all add: asc_def)
  from t [THEN conjunct2, THEN conjunct2, THEN conjunct2, THEN conjunct2, THEN conjunct2,
      THEN conjunct1, THEN mp, OF conjI [OF m]]
  have z: "token_range plain_ucd (asc ''9'' @ 45 # asc ''5'')
       = token_range plain_ucd (asc ''5'' @ 45 # asc ''9'')"
    by blast
  from s have s1: "sorted [1 :: int]" and s2: "distinct [1 :: int]" and s3: "set [1 :: int] \<subseteq> {1, 2, 3}"
    by blast+
  have j1: "[asc ''1'', asc ''99''] \<noteq> []" by simp
  have j2: "list_all (\<lambda>p. 44 \<notin> set p) [asc ''1'', asc ''99'']"
    by (simp add: asc_def)
  have j3: "py_lower plain_ucd (py_strip (asc '' 1,99 '')) = join_char 44 [asc ''1'', asc ''99'']"
    by (simp add: py_lower_def py_strip_def asc_def is_space_def)
  from t [THEN conjunct2, THEN conjunct2, THEN conjunct2, THEN conjunct2, THEN conjunct2,
      THEN conjunct2, THEN conjunct2, THEN conjunct2, THEN conjunct2, THEN conjunct2,
      THEN conjunct2, THEN mp, OF conjI [OF j1 conjI [OF j2 j3]]]
  have j4: "tokens plain_ucd (asc '' 1,99 '')
       = map py_strip (filter (\<lambda>p. py_strip p \<noteq> []) [asc ''1'', asc ''99''])" .
  show ?thesis
    by (intro conjI w l k i n p fin s1 s2 s3 w' l' p' len q x y m z j1 j2 j3 j4)
qed


text \<open>
  C6, as amended: \<open>int\<close> accepts exactly the integer literals. For a selection other
  than \<open>all\<close>, the parse error of \<open>int\<close> is raised exactly when a token is ill
  formed, whatever the other tokens name: a token with a minus sign is well formed
  only when the texts before and after its first minus sign are both integer literals,
  so that the negative number \<open>-3\<close> alone is ill formed, and a token without one only
  when it is an integer literal; blank tokens are skipped. When no token is ill formed,
  the selection error is raised exactly when no number that the tokens name is
  available. The selection \<open>all\<close> returns the available numbers without this check.
  In a run of \<open>main\<close> the chosen list is never empty, since the run stops before the
  selection when the text has no reference.
\<close>

theorem parse_selection_errors:
  "(py_lower U (py_strip sel) \<noteq> asc ''all'' \<and> within_cap (tokens U sel) \<longrightarrow>
      (parse_selection U sel A = Inl InvalidLiteral \<longleftrightarrow> ill_formed U (tokens U sel))
      \<and> (parse_selection U sel A = Inl NoSelection
         \<longleftrightarrow> \<not> ill_formed U (tokens U sel) \<and> numbers U (tokens U sel) \<inter> A = {}))
   \<and> (py_lower U (py_strip sel) = asc ''all'' \<longrightarrow> parse_selection U sel A = Inr (sorted_list_of_set A))
   \<and> (length s \<le> 4300 \<longrightarrow>
        py_int U s = (case int_literal U s of None \<Rightarrow> Inl InvalidLiteral | Some v \<Rightarrow> Inr v))
   \<and> (main U svc rtf select = Inr R \<longrightarrow> chosen_ref_nos R \<noteq> [])
   \<and> parse_selection U (asc ''99'') {1, 2, 3} = Inl NoSelection
   \<and> parse_selection U (asc ''1,x'') {1} = Inl InvalidLiteral
   \<and> int_literal U (asc ''-3'') = Some (- 3)
   \<and> token_range U (asc ''-3'') = None
   \<and> parse_selection U (asc ''-3'') {- 3} = Inl InvalidLiteral
   \<and> tokens U (asc ''1,, ,2'') = [asc ''1'', asc ''2'']
   \<and> parse_selection U (asc ''1,, ,2'') {1, 2} = Inr [1, 2]"
proof -
  have a: "py_lower U (py_strip sel) \<noteq> asc ''all'' \<and> within_cap (tokens U sel) \<longrightarrow>
      (parse_selection U sel A = Inl InvalidLiteral \<longleftrightarrow> ill_formed U (tokens U sel))
      \<and> (parse_selection U sel A = Inl NoSelection
         \<longleftrightarrow> \<not> ill_formed U (tokens U sel) \<and> numbers U (tokens U sel) \<inter> A = {})"
    by (simp add: parse_selection_tokens)
  have b: "py_lower U (py_strip sel) = asc ''all'' \<longrightarrow> parse_selection U sel A = Inr (sorted_list_of_set A)"
    by (simp add: parse_selection_tokens)
  have c: "length s \<le> 4300 \<longrightarrow>
        py_int U s = (case int_literal U s of None \<Rightarrow> Inl InvalidLiteral | Some v \<Rightarrow> Inr v)"
    using py_int_literal [of U s] by blast
  have d: "main U svc rtf select = Inr R \<longrightarrow> chosen_ref_nos R \<noteq> []"
    using main_chosen_nonempty [of U svc rtf select R] by blast
  show ?thesis
    by (intro conjI a b c d sel_unavailable_example sel_malformed_example literal_examples(1)
        range_examples(1) sel_negative_example tokens_examples(1) sel_blank_example)
qed

text \<open>
  C6 at the selection \<open>99\<close> of the claim, at the negative number \<open>-3\<close>, at \<open>ALL\<close>
  and at a run.
\<close>

theorem parse_selection_errors_witness:
  "py_lower plain_ucd (py_strip (asc ''99'')) \<noteq> asc ''all''
   \<and> within_cap (tokens plain_ucd (asc ''99''))
   \<and> \<not> ill_formed plain_ucd (tokens plain_ucd (asc ''99''))
   \<and> numbers plain_ucd (tokens plain_ucd (asc ''99'')) \<inter> {1, 2, 3} = {}
   \<and> parse_selection plain_ucd (asc ''99'') {1, 2, 3} = Inl NoSelection
   \<and> py_lower plain_ucd (py_strip (asc ''-3'')) \<noteq> asc ''all''
   \<and> within_cap (tokens plain_ucd (asc ''-3''))
   \<and> ill_formed plain_ucd (tokens plain_ucd (asc ''-3''))
   \<and> parse_selection plain_ucd (asc ''-3'') {- 3} = Inl InvalidLiteral
   \<and> length (asc ''-3'') \<le> 4300
   \<and> py_int plain_ucd (asc ''-3'') = Inr (- 3)
   \<and> py_lower plain_ucd (py_strip (asc '' ALL '')) = asc ''all''
   \<and> parse_selection plain_ucd (asc '' ALL '') {} = Inr []
   \<and> (\<exists>R. main plain_ucd no_service dup_doc (asc ''1'') = Inr R \<and> chosen_ref_nos R \<noteq> [])"
proof -
  note t = parse_selection_errors [where U = plain_ucd and sel = "asc ''99''" and A = "{1, 2, 3}"
      and s = "asc ''-3''" and svc = no_service and rtf = dup_doc and select = "asc ''1''"]
  note t' = parse_selection_errors [where U = plain_ucd and sel = "asc ''-3''" and A = "{- 3}"
      and s = "asc ''-3''" and svc = no_service and rtf = dup_doc and select = "asc ''1''"]
  note t'' = parse_selection_errors [where U = plain_ucd and sel = "asc '' ALL ''" and A = "{}"
      and s = "asc ''-3''" and svc = no_service and rtf = dup_doc and select = "asc ''1''"]
  have k: "tokens plain_ucd (asc ''99'') = [asc ''99'']"
    "tokens plain_ucd (asc ''-3'') = [asc ''-3'']"
    by (simp_all add: tokens_def selection_parts_def py_lower_def py_strip_def asc_def char_defs)
  have r: "token_range plain_ucd (asc ''99'') = Some (99, 99)"
    by (simp add: token_range_def int_literal_def trim_blanks_def digit_group_def
      token_value_def digit_of_def asc_def char_defs)
  have l: "py_lower plain_ucd (py_strip (asc ''99'')) \<noteq> asc ''all''"
    "py_lower plain_ucd (py_strip (asc ''-3'')) \<noteq> asc ''all''"
    by (simp_all add: py_lower_def py_strip_def asc_def is_space_def)
  have w: "within_cap (tokens plain_ucd (asc ''99''))" "within_cap (tokens plain_ucd (asc ''-3''))"
    unfolding k by (simp_all add: within_cap_def asc_def)
  have i: "\<not> ill_formed plain_ucd (tokens plain_ucd (asc ''99''))"
    unfolding k by (simp add: ill_formed_def r)
  have n: "numbers plain_ucd (tokens plain_ucd (asc ''99'')) \<inter> {1, 2, 3} = {}"
    unfolding k by (simp add: numbers_def r)
  from t [THEN conjunct1, THEN mp, OF conjI [OF l(1) w(1)], THEN conjunct2] i n
  have p: "parse_selection plain_ucd (asc ''99'') {1, 2, 3} = Inl NoSelection"
    by blast
  have i': "ill_formed plain_ucd (tokens plain_ucd (asc ''-3''))"
    unfolding k by (simp add: ill_formed_def range_examples(1))
  from t' [THEN conjunct1, THEN mp, OF conjI [OF l(2) w(2)], THEN conjunct1] i'
  have p': "parse_selection plain_ucd (asc ''-3'') {- 3} = Inl InvalidLiteral"
    by blast
  have len: "length (asc ''-3'') \<le> 4300"
    by (simp add: asc_def)
  from t [THEN conjunct2, THEN conjunct2, THEN conjunct1, THEN mp, OF len]
  have v: "py_int plain_ucd (asc ''-3'') = Inr (- 3)"
    by (simp add: literal_examples(1))
  have l'': "py_lower plain_ucd (py_strip (asc '' ALL '')) = asc ''all''"
    by (simp add: py_lower_def py_strip_def asc_def is_space_def)
  from t'' [THEN conjunct2, THEN conjunct1, THEN mp, OF l'']
  have p'': "parse_selection plain_ucd (asc '' ALL '') {} = Inr []"
    by simp
  from t [THEN conjunct2, THEN conjunct2, THEN conjunct2, THEN conjunct1, THEN mp,
      OF dup_main [of plain_ucd]]
  have "\<exists>R. main plain_ucd no_service dup_doc (asc ''1'') = Inr R \<and> chosen_ref_nos R \<noteq> []"
    using dup_main [of plain_ucd] by simp
  then show ?thesis
    by (intro conjI l(1) w(1) i n p l(2) w(2) i' p' len v l'' p'')
qed

text \<open>
  C6 as stated fails at \<open>all\<close> with no available number: the chosen list is empty and
  no error is raised.
\<close>

theorem parse_selection_counterexample:
  "\<forall>U. parse_selection U (asc ''all'') {} = Inr []"
  by (simp add: parse_selection_def py_lower_def py_strip_def asc_def is_space_def)

end
